theory Spec2Isabelle
  imports Complex_Main
begin

section \<open>TinyGrad: a scalar reverse-mode automatic differentiation engine\<close>

text \<open>
  The development embeds the class \<^verbatim>\<open>Value\<close> of \<^verbatim>\<open>TinyGrad.py\<close>.

  \<^item> Python objects live in a heap, a list of nodes; a reference is the index at which
    the object was allocated. Objects are never freed.
  \<^item> A Python float is modelled as a real number: rounding (and with it underflow to
    zero, infinities and NaN) is not modelled. What Python turns into an exception is
    modelled: \<^verbatim>\<open>ZeroDivisionError\<close> of \<^verbatim>\<open>/\<close> and \<^verbatim>\<open>**\<close>, \<^verbatim>\<open>OverflowError\<close> of
    \<^verbatim>\<open>math.exp\<close> and \<^verbatim>\<open>**\<close> when the result leaves the range of a binary64 float,
    \<^verbatim>\<open>ValueError\<close> of \<^verbatim>\<open>math.log\<close>, and \<^verbatim>\<open>AttributeError\<close> of reading \<^verbatim>\<open>.data\<close> on a
    raw number. The value of a node is a float, as in the data model of the
    specification; raw integer operands (\<^verbatim>\<open>-1\<close>, \<^verbatim>\<open>3\<close>) are coerced to floats, as Python
    does when it combines them with a float.
  \<^item> A sum or a product of floats never raises: out of range it is an infinity. The
    model keeps the real number, which then stands for that infinity. The theorems that
    say exactly when an operation raises are about nodes whose values are in the float
    range. One operation meets an infinity on such a node: \<^verbatim>\<open>tanh\<close> takes \<^verbatim>\<open>math.exp\<close> of its
    own product \<^verbatim>\<open>-2 * self.data\<close>. \<^verbatim>\<open>math.exp(inf)\<close> is \<^verbatim>\<open>inf\<close>, not an exception, and
    \<open>py_exp\<close> below does not raise on an argument that has left the range.
  \<^item> The closure \<^verbatim>\<open>_backward\<close> stored in a node is a value of the datatype \<open>closure\<close>:
    one constructor per \<^verbatim>\<open>def _backward\<close> of the source, holding the references the
    Python closure captures (\<^verbatim>\<open>self\<close>, \<^verbatim>\<open>other\<close>, \<^verbatim>\<open>out\<close>, \<^verbatim>\<open>alpha\<close>).
  \<^item> \<^verbatim>\<open>_prev\<close> is a Python set; it is modelled as a duplicate-free list whose order
    stands for the iteration order of the set. The theorems on arbitrary heaps hold
    for every order.
  \<^item> The recursion of \<^verbatim>\<open>build_topo\<close> is bounded by the number of objects, which is shown
    to be enough; the recursion limit of the Python interpreter is not modelled.
\<close>

subsection \<open>Exceptions and float primitives\<close>

datatype py_exception = ZeroDivisionError | OverflowError | ValueError | AttributeError

text \<open>\<open>ComplexResult\<close> is not an exception: a negative float raised to a non-integral
  power is a Python \<^verbatim>\<open>complex\<close>, which the model of floats cannot hold.\<close>

datatype failure = Raises py_exception | ComplexResult

text \<open>Sequencing of a computation that may fail.\<close>

definition and_then :: "failure + 'a \<Rightarrow> ('a \<Rightarrow> failure + 'b) \<Rightarrow> failure + 'b" where
  "and_then m f = (case m of Inl e \<Rightarrow> Inl e | Inr x \<Rightarrow> f x)"

text \<open>Under round-to-nearest, a result whose magnitude reaches \<open>2^1024 - 2^970\<close>
  rounds to infinity; below it, it rounds to a finite binary64 float.\<close>

definition overflow_bound :: real where
  "overflow_bound = 2 ^ 1024 - 2 ^ 970"

text \<open>\<^verbatim>\<open>x / y\<close> on floats.\<close>

definition py_truediv :: "real \<Rightarrow> real \<Rightarrow> failure + real" where
  "py_truediv x y = (if y = 0 then Inl (Raises ZeroDivisionError) else Inr (x / y))"

text \<open>\<^verbatim>\<open>math.exp(x)\<close>: \<^verbatim>\<open>OverflowError: math range error\<close> when the argument is a finite
  float and the result is too large. An argument that has reached the bound is the float
  \<^verbatim>\<open>inf\<close>, and \<^verbatim>\<open>math.exp(inf)\<close> returns \<^verbatim>\<open>inf\<close>.\<close>

definition py_exp :: "real \<Rightarrow> failure + real" where
  "py_exp x = (if x < overflow_bound \<and> overflow_bound \<le> exp x then Inl (Raises OverflowError)
               else Inr (exp x))"

text \<open>\<^verbatim>\<open>math.log(x)\<close>: \<^verbatim>\<open>ValueError: math domain error\<close> outside the positive reals.\<close>

definition py_log :: "real \<Rightarrow> failure + real" where
  "py_log x = (if x \<le> 0 then Inl (Raises ValueError) else Inr (ln x))"

text \<open>\<^verbatim>\<open>v ** w\<close> on floats, in the case order of CPython's \<^verbatim>\<open>float_pow\<close>: anything to
  the power 0 is 1; zero to a negative power raises; a negative base with a
  non-integral exponent gives a complex number; otherwise the C function \<^verbatim>\<open>pow\<close>
  is called on the magnitude (the sign restored for an odd exponent), and a result
  out of range raises \<^verbatim>\<open>OverflowError\<close>.\<close>

definition py_pow :: "real \<Rightarrow> real \<Rightarrow> failure + real" where
  "py_pow v w =
     (if w = 0 then Inr 1
      else if v = 0 then (if w < 0 then Inl (Raises ZeroDivisionError) else Inr 0)
      else if v < 0 \<and> of_int \<lfloor>w\<rfloor> \<noteq> w then Inl ComplexResult
      else let ix = (if v < 0 \<and> odd \<lfloor>w\<rfloor> then - ((- v) powr w) else \<bar>v\<bar> powr w)
           in if overflow_bound \<le> \<bar>ix\<bar> then Inl (Raises OverflowError) else Inr ix)"

subsection \<open>Nodes and the heap\<close>

type_synonym ref = nat

text \<open>An argument of an operator: a \<^verbatim>\<open>Value\<close> object or a raw number.\<close>

datatype operand = Ref ref | Raw real

text \<open>The string \<^verbatim>\<open>_op\<close>; the two formatted strings keep their \<^verbatim>\<open>alpha\<close>.\<close>

datatype op_tag = Op_Leaf | Op_Add | Op_Mul | Op_Pow | Op_ReLU | Op_Sigmoid | Op_Tanh
  | Op_LeakyReLU real | Op_ELU real | Op_Exp

text \<open>The closures: \<open>Bw_None\<close> is \<^verbatim>\<open>lambda: None\<close>; the binary ones hold \<^verbatim>\<open>self\<close>,
  \<^verbatim>\<open>other\<close>, \<^verbatim>\<open>out\<close>; the unary ones \<^verbatim>\<open>self\<close>, \<^verbatim>\<open>out\<close>. The closure of \<^verbatim>\<open>__truediv__\<close>
  captures \<^verbatim>\<open>other\<close> as it was passed, a \<^verbatim>\<open>Value\<close> or a raw number.\<close>

datatype closure = Bw_None
  | Bw_Add ref ref ref
  | Bw_Mul ref ref ref
  | Bw_Div ref operand ref
  | Bw_Pow ref ref ref
  | Bw_ReLU ref ref
  | Bw_Sigmoid ref ref
  | Bw_Tanh ref ref
  | Bw_LeakyReLU real ref ref
  | Bw_ELU real ref ref
  | Bw_Exp ref ref

record val =
  data :: real
  grad :: real
  backward_fn :: closure
  prev :: "ref list"
  op :: op_tag

type_synonym heap = "val list"

text \<open>\<^verbatim>\<open>Value.__init__\<close>: allocates the node and returns its reference.\<close>

definition Value_init :: "heap \<Rightarrow> real \<Rightarrow> ref list \<Rightarrow> op_tag \<Rightarrow> heap \<times> ref" where
  "Value_init h d children tag =
     (h @ [\<lparr>data = d, grad = 0, backward_fn = Bw_None, prev = remdups children, op = tag\<rparr>],
      length h)"

text \<open>\<^verbatim>\<open>out._backward = _backward\<close>.\<close>

definition set_backward :: "heap \<Rightarrow> ref \<Rightarrow> closure \<Rightarrow> heap" where
  "set_backward h out c = h[out := (h ! out)\<lparr>backward_fn := c\<rparr>]"

text \<open>\<^verbatim>\<open>v.grad += d\<close>.\<close>

definition add_grad :: "heap \<Rightarrow> ref \<Rightarrow> real \<Rightarrow> heap" where
  "add_grad h v d = h[v := (h ! v)\<lparr>grad := grad (h ! v) + d\<rparr>]"

text \<open>\<^verbatim>\<open>other = other if isinstance(other, Value) else Value(other)\<close>.\<close>

fun wrap :: "heap \<Rightarrow> operand \<Rightarrow> heap \<times> ref" where
  "wrap h (Ref r) = (h, r)"
| "wrap h (Raw x) = Value_init h x [] Op_Leaf"

subsection \<open>The operations\<close>

definition Value_add :: "heap \<Rightarrow> ref \<Rightarrow> operand \<Rightarrow> heap \<times> ref" where
  "Value_add h self other =
     (let (h1, other') = wrap h other;
          (h2, out) = Value_init h1 (data (h1 ! self) + data (h1 ! other')) [self, other'] Op_Add
      in (set_backward h2 out (Bw_Add self other' out), out))"

definition Value_mul :: "heap \<Rightarrow> ref \<Rightarrow> operand \<Rightarrow> heap \<times> ref" where
  "Value_mul h self other =
     (let (h1, other') = wrap h other;
          (h2, out) = Value_init h1 (data (h1 ! self) * data (h1 ! other')) [self, other'] Op_Mul
      in (set_backward h2 out (Bw_Mul self other' out), out))"

definition Value_pow :: "heap \<Rightarrow> ref \<Rightarrow> operand \<Rightarrow> failure + heap \<times> ref" where
  "Value_pow h self other =
     (let (h1, other') = wrap h other
      in and_then (py_pow (data (h1 ! self)) (data (h1 ! other'))) (\<lambda>d.
           let (h2, out) = Value_init h1 d [self, other'] Op_Pow
           in Inr (set_backward h2 out (Bw_Pow self other' out), out)))"

text \<open>\<^verbatim>\<open>out = self * other ** -1\<close>: the power is taken first. On a \<^verbatim>\<open>Value\<close> it is
  \<^verbatim>\<open>Value.__pow__\<close>; on a raw number it is Python's own \<^verbatim>\<open>**\<close>, and the product then
  wraps the result. The closure replaces the one multiplication installed, and keeps
  \<^verbatim>\<open>other\<close> as passed.\<close>

definition Value_truediv :: "heap \<Rightarrow> ref \<Rightarrow> operand \<Rightarrow> failure + heap \<times> ref" where
  "Value_truediv h self other =
     (case other of
        Ref r \<Rightarrow> and_then (Value_pow h r (Raw (- 1))) (\<lambda>(h1, p).
                   let (h2, out) = Value_mul h1 self (Ref p)
                   in Inr (set_backward h2 out (Bw_Div self other out), out))
      | Raw x \<Rightarrow> and_then (py_pow x (- 1)) (\<lambda>y.
                   let (h2, out) = Value_mul h self (Raw y)
                   in Inr (set_backward h2 out (Bw_Div self other out), out)))"

definition Value_relu :: "heap \<Rightarrow> ref \<Rightarrow> heap \<times> ref" where
  "Value_relu h self =
     (let (h1, out) = Value_init h (if data (h ! self) < 0 then 0 else data (h ! self)) [self] Op_ReLU
      in (set_backward h1 out (Bw_ReLU self out), out))"

definition Value_exp :: "heap \<Rightarrow> ref \<Rightarrow> failure + heap \<times> ref" where
  "Value_exp h self =
     and_then (py_exp (data (h ! self))) (\<lambda>d.
       let (h1, out) = Value_init h d [self] Op_Exp
       in Inr (set_backward h1 out (Bw_Exp self out), out))"

text \<open>\<^verbatim>\<open>__neg__\<close> is \<^verbatim>\<open>self * -1\<close>.\<close>

definition Value_neg :: "heap \<Rightarrow> ref \<Rightarrow> heap \<times> ref" where
  "Value_neg h self = Value_mul h self (Raw (- 1))"

text \<open>\<^verbatim>\<open>__sub__\<close> is \<^verbatim>\<open>self + (-other)\<close>: the negation of a \<^verbatim>\<open>Value\<close> is \<^verbatim>\<open>__neg__\<close>, that
  of a raw number is Python's.\<close>

definition Value_sub :: "heap \<Rightarrow> ref \<Rightarrow> operand \<Rightarrow> heap \<times> ref" where
  "Value_sub h self other =
     (case other of
        Ref r \<Rightarrow> (let (h1, n) = Value_neg h r in Value_add h1 self (Ref n))
      | Raw x \<Rightarrow> Value_add h self (Raw (- x)))"

text \<open>\<^verbatim>\<open>__radd__\<close> and \<^verbatim>\<open>__rmul__\<close>: \<^verbatim>\<open>other + self\<close> and \<^verbatim>\<open>other * self\<close> for a raw \<^verbatim>\<open>other\<close>.\<close>

definition Value_radd :: "heap \<Rightarrow> ref \<Rightarrow> operand \<Rightarrow> heap \<times> ref" where
  "Value_radd h self other = Value_add h self other"

definition Value_rmul :: "heap \<Rightarrow> ref \<Rightarrow> operand \<Rightarrow> heap \<times> ref" where
  "Value_rmul h self other = Value_mul h self other"

text \<open>\<^verbatim>\<open>Value(1 / (1 + (-self).exp().data), (self,), 'Sigmoid')\<close>: the negation and the
  exponential allocate their own nodes.\<close>

definition Value_sigmoid :: "heap \<Rightarrow> ref \<Rightarrow> failure + heap \<times> ref" where
  "Value_sigmoid h self =
     (let (h1, n) = Value_neg h self
      in and_then (Value_exp h1 n) (\<lambda>(h2, e).
         and_then (py_truediv 1 (1 + data (h2 ! e))) (\<lambda>d.
           let (h3, out) = Value_init h2 d [self] Op_Sigmoid
           in Inr (set_backward h3 out (Bw_Sigmoid self out), out))))"

text \<open>\<^verbatim>\<open>Value((2 / (1 + (-2 * self).exp().data)) - 1, (self,), 'Tanh')\<close>; \<^verbatim>\<open>-2 * self\<close> is
  \<^verbatim>\<open>self.__rmul__(-2)\<close>. When the product \<^verbatim>\<open>-2 * self.data\<close> leaves the range, the
  exponential does not raise (see \<open>py_exp\<close>) and the value of the result is \<open>-1\<close> up to
  rounding.\<close>

definition Value_tanh :: "heap \<Rightarrow> ref \<Rightarrow> failure + heap \<times> ref" where
  "Value_tanh h self =
     (let (h1, n) = Value_rmul h self (Raw (- 2))
      in and_then (Value_exp h1 n) (\<lambda>(h2, e).
         and_then (py_truediv 2 (1 + data (h2 ! e))) (\<lambda>q.
           let (h3, out) = Value_init h2 (q - 1) [self] Op_Tanh
           in Inr (set_backward h3 out (Bw_Tanh self out), out))))"

definition Value_leaky_relu :: "heap \<Rightarrow> ref \<Rightarrow> real \<Rightarrow> heap \<times> ref" where
  "Value_leaky_relu h self alpha =
     (let (h1, out) = Value_init h (if data (h ! self) < 0 then alpha * data (h ! self)
                                    else data (h ! self)) [self] (Op_LeakyReLU alpha)
      in (set_backward h1 out (Bw_LeakyReLU alpha self out), out))"

text \<open>\<^verbatim>\<open>alpha * ((self).exp().data - 1) if self.data < 0 else self.data\<close>: the exponential
  node is allocated only on the negative branch.\<close>

definition Value_elu :: "heap \<Rightarrow> ref \<Rightarrow> real \<Rightarrow> failure + heap \<times> ref" where
  "Value_elu h self alpha =
     and_then (if data (h ! self) < 0
               then and_then (Value_exp h self) (\<lambda>(h1, e). Inr (h1, alpha * (data (h1 ! e) - 1)))
               else Inr (h, data (h ! self))) (\<lambda>(h1, d).
       let (h2, out) = Value_init h1 d [self] (Op_ELU alpha)
       in Inr (set_backward h2 out (Bw_ELU alpha self out), out))"

subsection \<open>The closures\<close>

text \<open>Running \<^verbatim>\<open>_backward()\<close>: each equation is the body of one \<^verbatim>\<open>def _backward\<close>, its
  statements in order, each reading the heap its predecessor left.\<close>

fun run_closure :: "heap \<Rightarrow> closure \<Rightarrow> failure + heap" where
  "run_closure h Bw_None = Inr h"
| "run_closure h (Bw_Add self other out) =
     (let h1 = add_grad h self (grad (h ! out))
      in Inr (add_grad h1 other (grad (h1 ! out))))"
| "run_closure h (Bw_Mul self other out) =
     (let h1 = add_grad h self (data (h ! other) * grad (h ! out))
      in Inr (add_grad h1 other (data (h1 ! self) * grad (h1 ! out))))"
| "run_closure h (Bw_Div self (Raw x) out) = Inl (Raises AttributeError)"
| "run_closure h (Bw_Div self (Ref other) out) =
     and_then (py_truediv (grad (h ! out)) (data (h ! other))) (\<lambda>q.
       let h1 = add_grad h self q
       in and_then (py_pow (data (h1 ! other)) 2) (\<lambda>sq.
          and_then (py_truediv (grad (h1 ! out) * data (h1 ! self)) sq) (\<lambda>r.
            Inr (add_grad h1 other (- r)))))"
| "run_closure h (Bw_Pow self other out) =
     (let a = data (h ! self); b = data (h ! other)
      in and_then (if a \<noteq> 0 then and_then (py_pow a (b - 1)) (\<lambda>p. Inr (b * p)) else Inr 0) (\<lambda>grad_a.
         and_then (if a > 0 then and_then (py_pow a b) (\<lambda>p. and_then (py_log a) (\<lambda>l. Inr (p * l)))
                   else Inr 0) (\<lambda>grad_b.
           let h1 = add_grad h self (grad_a * grad (h ! out))
           in Inr (add_grad h1 other (grad_b * grad (h1 ! out))))))"
| "run_closure h (Bw_ReLU self out) =
     Inr (add_grad h self ((if data (h ! out) > 0 then 1 else 0) * grad (h ! out)))"
| "run_closure h (Bw_Sigmoid self out) =
     Inr (add_grad h self (data (h ! out) * (1 - data (h ! out)) * grad (h ! out)))"
| "run_closure h (Bw_Tanh self out) =
     and_then (py_pow (data (h ! out)) 2) (\<lambda>sq.
       Inr (add_grad h self ((1 - sq) * grad (h ! out))))"
| "run_closure h (Bw_LeakyReLU alpha self out) =
     Inr (add_grad h self ((if data (h ! self) < 0 then alpha else 1) * grad (h ! out)))"
| "run_closure h (Bw_ELU alpha self out) =
     and_then (if data (h ! self) < 0
               then and_then (Value_exp h out) (\<lambda>(h1, e). Inr (h1, alpha * data (h1 ! e)))
               else Inr (h, 1)) (\<lambda>(h1, k).
       Inr (add_grad h1 self (k * grad (h1 ! out))))"
| "run_closure h (Bw_Exp self out) =
     Inr (add_grad h self (data (h ! out) * grad (h ! out)))"

subsection \<open>The backward pass\<close>

text \<open>\<^verbatim>\<open>build_topo\<close>, with the two variables \<^verbatim>\<open>visited\<close> and \<^verbatim>\<open>topo\<close> of the enclosing
  call threaded through. The first argument bounds the depth of the recursion;
  \<open>None\<close> means that the bound was reached. \<open>build_topo_children\<close> is the loop
  \<^verbatim>\<open>for child in v._prev\<close>.\<close>

fun build_topo :: "nat \<Rightarrow> heap \<Rightarrow> ref \<Rightarrow> ref set \<times> ref list \<Rightarrow> (ref set \<times> ref list) option"
  and build_topo_children ::
    "nat \<Rightarrow> heap \<Rightarrow> ref list \<Rightarrow> ref set \<times> ref list \<Rightarrow> (ref set \<times> ref list) option"
where
  "build_topo 0 h v st = None"
| "build_topo (Suc n) h v (visited, topo) =
     (if v \<notin> visited
      then (case build_topo_children n h (prev (h ! v)) (insert v visited, topo) of
              None \<Rightarrow> None
            | Some (visited', topo') \<Rightarrow> Some (visited', topo' @ [v]))
      else Some (visited, topo))"
| "build_topo_children n h [] st = Some st"
| "build_topo_children n h (child # rest) st =
     (case build_topo n h child st of
        None \<Rightarrow> None
      | Some st' \<Rightarrow> build_topo_children n h rest st')"

text \<open>The list \<^verbatim>\<open>reversed(topo)\<close> after \<^verbatim>\<open>build_topo(self)\<close>: the nodes whose
  \<^verbatim>\<open>_backward\<close> is called, in the order of the calls. A depth of one more than
  the number of objects is always enough (\<open>build_topo_total\<close> below).\<close>

definition backward_order :: "heap \<Rightarrow> ref \<Rightarrow> ref list option" where
  "backward_order h rt =
     map_option (\<lambda>(visited, topo). rev topo) (build_topo (Suc (length h)) h rt ({}, []))"

text \<open>\<^verbatim>\<open>for v in reversed(topo): v._backward()\<close>.\<close>

fun run_all :: "heap \<Rightarrow> ref list \<Rightarrow> failure + heap" where
  "run_all h [] = Inr h"
| "run_all h (v # vs) = and_then (run_closure h (backward_fn (h ! v))) (\<lambda>h'. run_all h' vs)"

text \<open>\<^verbatim>\<open>self.grad = 1\<close>.\<close>

definition set_grad :: "heap \<Rightarrow> ref \<Rightarrow> real \<Rightarrow> heap" where
  "set_grad h v g = h[v := (h ! v)\<lparr>grad := g\<rparr>]"

definition Value_backward :: "heap \<Rightarrow> ref \<Rightarrow> (failure + heap) option" where
  "Value_backward h rt =
     map_option (\<lambda>order. run_all (set_grad h rt 1) order) (backward_order h rt)"

subsection \<open>The graph of a heap\<close>

text \<open>The edges of the computation graph: from a node to each of its operands
  (\<^verbatim>\<open>_prev\<close>). What \<^verbatim>\<open>build_topo\<close> reaches from a node is the image of the node under
  the reflexive transitive closure.\<close>

definition operand_edges :: "heap \<Rightarrow> (ref \<times> ref) set" where
  "operand_edges h = {(v, c). v < length h \<and> c \<in> set (prev (h ! v))}"

text \<open>No dangling reference: every operand is an object of the heap.\<close>

definition refs_ok :: "heap \<Rightarrow> bool" where
  "refs_ok h = (\<forall>v<length h. \<forall>c\<in>set (prev (h ! v)). c < length h)"

text \<open>In a list of nodes, the operands of every node come later in the list.\<close>

fun operands_later :: "heap \<Rightarrow> ref list \<Rightarrow> bool" where
  "operands_later h [] = True"
| "operands_later h (x # rest) = (set (prev (h ! x)) \<subseteq> set rest \<and> operands_later h rest)"

subsection \<open>What a closure reads and writes\<close>

text \<open>The value of \<^verbatim>\<open>v ** w\<close> when it is a float.\<close>

definition pow_value :: "real \<Rightarrow> real \<Rightarrow> real" where
  "pow_value v w =
     (if w = 0 then 1 else if v = 0 then 0
      else if v < 0 \<and> odd \<lfloor>w\<rfloor> then - ((- v) powr w) else \<bar>v\<bar> powr w)"

text \<open>The node \<^verbatim>\<open>out\<close> whose gradient a closure reads.\<close>

fun closure_out :: "closure \<Rightarrow> ref option" where
  "closure_out Bw_None = None"
| "closure_out (Bw_Add self other out) = Some out"
| "closure_out (Bw_Mul self other out) = Some out"
| "closure_out (Bw_Div self other out) = Some out"
| "closure_out (Bw_Pow self other out) = Some out"
| "closure_out (Bw_ReLU self out) = Some out"
| "closure_out (Bw_Sigmoid self out) = Some out"
| "closure_out (Bw_Tanh self out) = Some out"
| "closure_out (Bw_LeakyReLU alpha self out) = Some out"
| "closure_out (Bw_ELU alpha self out) = Some out"
| "closure_out (Bw_Exp self out) = Some out"

text \<open>The nodes whose gradient a closure adds to.\<close>

fun closure_targets :: "closure \<Rightarrow> ref list" where
  "closure_targets Bw_None = []"
| "closure_targets (Bw_Add self other out) = [self, other]"
| "closure_targets (Bw_Mul self other out) = [self, other]"
| "closure_targets (Bw_Div self (Ref other) out) = [self, other]"
| "closure_targets (Bw_Div self (Raw x) out) = [self]"
| "closure_targets (Bw_Pow self other out) = [self, other]"
| "closure_targets (Bw_ReLU self out) = [self]"
| "closure_targets (Bw_Sigmoid self out) = [self]"
| "closure_targets (Bw_Tanh self out) = [self]"
| "closure_targets (Bw_LeakyReLU alpha self out) = [self]"
| "closure_targets (Bw_ELU alpha self out) = [self]"
| "closure_targets (Bw_Exp self out) = [self]"

text \<open>What a closure adds to the gradient of node \<open>x\<close> when it runs in heap \<open>h\<close> and
  returns: for each operand that is \<open>x\<close>, the local partial derivative times the
  gradient of \<^verbatim>\<open>out\<close> (\<open>run_closure_grad\<close> below relates it to \<open>run_closure\<close>).\<close>

fun contribution :: "heap \<Rightarrow> closure \<Rightarrow> ref \<Rightarrow> real" where
  "contribution h Bw_None x = 0"
| "contribution h (Bw_Add self other out) x =
     (if x = self then grad (h ! out) else 0) + (if x = other then grad (h ! out) else 0)"
| "contribution h (Bw_Mul self other out) x =
     (if x = self then data (h ! other) * grad (h ! out) else 0)
     + (if x = other then data (h ! self) * grad (h ! out) else 0)"
| "contribution h (Bw_Div self (Ref other) out) x =
     (if x = self then grad (h ! out) / data (h ! other) else 0)
     + (if x = other then - (grad (h ! out) * data (h ! self) / (data (h ! other))\<^sup>2) else 0)"
| "contribution h (Bw_Div self (Raw r) out) x = 0"
| "contribution h (Bw_Pow self other out) x =
     (if x = self
      then (if data (h ! self) \<noteq> 0
            then data (h ! other) * pow_value (data (h ! self)) (data (h ! other) - 1) else 0)
           * grad (h ! out)
      else 0)
     + (if x = other
        then (if data (h ! self) > 0
              then pow_value (data (h ! self)) (data (h ! other)) * ln (data (h ! self)) else 0)
             * grad (h ! out)
        else 0)"
| "contribution h (Bw_ReLU self out) x =
     (if x = self then (if data (h ! out) > 0 then 1 else 0) * grad (h ! out) else 0)"
| "contribution h (Bw_Sigmoid self out) x =
     (if x = self then data (h ! out) * (1 - data (h ! out)) * grad (h ! out) else 0)"
| "contribution h (Bw_Tanh self out) x =
     (if x = self then (1 - (data (h ! out))\<^sup>2) * grad (h ! out) else 0)"
| "contribution h (Bw_LeakyReLU alpha self out) x =
     (if x = self then (if data (h ! self) < 0 then alpha else 1) * grad (h ! out) else 0)"
| "contribution h (Bw_ELU alpha self out) x =
     (if x = self then (if data (h ! self) < 0 then alpha * exp (data (h ! out)) else 1) * grad (h ! out)
      else 0)"
| "contribution h (Bw_Exp self out) x =
     (if x = self then data (h ! out) * grad (h ! out) else 0)"

text \<open>The heaps that the operations build. Operands are allocated before the node
  that uses them; the closure of a node reads the gradient of that node; and it
  writes to operands of the node or (the closure of \<^verbatim>\<open>__truediv__\<close>) to operands of
  operands.\<close>

definition wf_node :: "heap \<Rightarrow> ref \<Rightarrow> bool" where
  "wf_node h i =
     ((\<forall>c\<in>set (prev (h ! i)). c < i)
      \<and> (closure_out (backward_fn (h ! i)) = None \<or> closure_out (backward_fn (h ! i)) = Some i)
      \<and> (\<forall>t\<in>set (closure_targets (backward_fn (h ! i))).
            t \<in> set (prev (h ! i)) \<or> (\<exists>p\<in>set (prev (h ! i)). t \<in> set (prev (h ! p)))))"

definition wf_heap :: "heap \<Rightarrow> bool" where
  "wf_heap h = (\<forall>i\<in>set [0..<length h]. wf_node h i)"

text \<open>In a list of nodes, no closure writes to its own node or to a node earlier in
  the list.\<close>

fun no_back_writes :: "(ref \<Rightarrow> closure) \<Rightarrow> ref list \<Rightarrow> bool" where
  "no_back_writes cl [] = True"
| "no_back_writes cl (v # rest) =
     ((\<forall>c\<in>set (v # rest). v \<notin> set (closure_targets (cl c))) \<and> no_back_writes cl rest)"

text \<open>The nodes of a list whose closures write to node \<open>x\<close>: in the list of a backward
  pass, the consumers of \<open>x\<close>.\<close>

definition writers :: "heap \<Rightarrow> ref list \<Rightarrow> ref \<Rightarrow> ref list" where
  "writers h order x = filter (\<lambda>c. x \<in> set (closure_targets (backward_fn (h ! c)))) order"

subsection \<open>Example graphs\<close>

text \<open>A diamond: \<^verbatim>\<open>a = Value(3.0); b = Value(4.0); u = a * b; w = a + b; r = u * w\<close>, and
  the heap after \<^verbatim>\<open>r.backward()\<close>.\<close>

definition diamond_heap :: heap where
  "diamond_heap =
     (let (h0, a) = Value_init [] 3 [] Op_Leaf;
          (h1, b) = Value_init h0 4 [] Op_Leaf;
          (h2, u) = Value_mul h1 a (Ref b);
          (h3, w) = Value_add h2 a (Ref b);
          (h4, r) = Value_mul h3 u (Ref w)
      in h4)"

definition diamond_after :: heap where
  "diamond_after =
     [\<lparr>data = 3, grad = 40, backward_fn = Bw_None, prev = [], op = Op_Leaf\<rparr>,
      \<lparr>data = 4, grad = 33, backward_fn = Bw_None, prev = [], op = Op_Leaf\<rparr>,
      \<lparr>data = 12, grad = 7, backward_fn = Bw_Mul 0 1 2, prev = [0, 1], op = Op_Mul\<rparr>,
      \<lparr>data = 7, grad = 12, backward_fn = Bw_Add 0 1 3, prev = [0, 1], op = Op_Add\<rparr>,
      \<lparr>data = 84, grad = 1, backward_fn = Bw_Mul 2 3 4, prev = [2, 3], op = Op_Mul\<rparr>]"

text \<open>A chain: \<^verbatim>\<open>a = Value(2.0); b = a * 2; c = b * 3\<close>, and the heap after one and after
  two calls of \<^verbatim>\<open>c.backward()\<close>.\<close>

definition chain_heap :: heap where
  "chain_heap =
     (let (h0, a) = Value_init [] 2 [] Op_Leaf;
          (h1, b) = Value_mul h0 a (Raw 2);
          (h2, c) = Value_mul h1 b (Raw 3)
      in h2)"

definition chain_once :: heap where
  "chain_once =
     [\<lparr>data = 2, grad = 6, backward_fn = Bw_None, prev = [], op = Op_Leaf\<rparr>,
      \<lparr>data = 2, grad = 6, backward_fn = Bw_None, prev = [], op = Op_Leaf\<rparr>,
      \<lparr>data = 4, grad = 3, backward_fn = Bw_Mul 0 1 2, prev = [0, 1], op = Op_Mul\<rparr>,
      \<lparr>data = 3, grad = 4, backward_fn = Bw_None, prev = [], op = Op_Leaf\<rparr>,
      \<lparr>data = 12, grad = 1, backward_fn = Bw_Mul 2 3 4, prev = [2, 3], op = Op_Mul\<rparr>]"

definition chain_twice :: heap where
  "chain_twice =
     [\<lparr>data = 2, grad = 18, backward_fn = Bw_None, prev = [], op = Op_Leaf\<rparr>,
      \<lparr>data = 2, grad = 18, backward_fn = Bw_None, prev = [], op = Op_Leaf\<rparr>,
      \<lparr>data = 4, grad = 6, backward_fn = Bw_Mul 0 1 2, prev = [0, 1], op = Op_Mul\<rparr>,
      \<lparr>data = 3, grad = 8, backward_fn = Bw_None, prev = [], op = Op_Leaf\<rparr>,
      \<lparr>data = 12, grad = 1, backward_fn = Bw_Mul 2 3 4, prev = [2, 3], op = Op_Mul\<rparr>]"

text \<open>\<^verbatim>\<open>a = Value(2.0); b = Value(3.0); c = a ** b\<close>, with the gradient of \<open>c\<close> set to 1.\<close>

definition cube_heap :: heap where
  "cube_heap =
     [\<lparr>data = 2, grad = 0, backward_fn = Bw_None, prev = [], op = Op_Leaf\<rparr>,
      \<lparr>data = 3, grad = 0, backward_fn = Bw_None, prev = [], op = Op_Leaf\<rparr>,
      \<lparr>data = 8, grad = 1, backward_fn = Bw_Pow 0 1 2, prev = [0, 1], op = Op_Pow\<rparr>]"

text \<open>\<^verbatim>\<open>a = Value(0.5); b = Value(-1023.0)\<close>, and the heap after \<^verbatim>\<open>c = a ** b\<close>.\<close>

definition half_heap :: heap where
  "half_heap =
     (let (h0, a) = Value_init [] (1 / 2) [] Op_Leaf;
          (h1, b) = Value_init h0 (- 1023) [] Op_Leaf
      in h1)"

definition half_pow_heap :: heap where
  "half_pow_heap =
     [\<lparr>data = 1 / 2, grad = 0, backward_fn = Bw_None, prev = [], op = Op_Leaf\<rparr>,
      \<lparr>data = - 1023, grad = 0, backward_fn = Bw_None, prev = [], op = Op_Leaf\<rparr>,
      \<lparr>data = 2 ^ 1023, grad = 0, backward_fn = Bw_Pow 0 1 2, prev = [0, 1], op = Op_Pow\<rparr>]"

text \<open>\<^verbatim>\<open>a = Value(-1.0)\<close>.\<close>

definition minus_one_heap :: heap where
  "minus_one_heap = fst (Value_init [] (- 1) [] Op_Leaf)"

text \<open>\<^verbatim>\<open>a = Value(0.0)\<close>, and the heaps after \<^verbatim>\<open>b = a.sigmoid()\<close> and after \<^verbatim>\<open>b.backward()\<close>.\<close>

definition zero_heap :: heap where
  "zero_heap = fst (Value_init [] 0 [] Op_Leaf)"

definition sigmoid_heap :: heap where
  "sigmoid_heap =
     [\<lparr>data = 0, grad = 0, backward_fn = Bw_None, prev = [], op = Op_Leaf\<rparr>,
      \<lparr>data = - 1, grad = 0, backward_fn = Bw_None, prev = [], op = Op_Leaf\<rparr>,
      \<lparr>data = 0, grad = 0, backward_fn = Bw_Mul 0 1 2, prev = [0, 1], op = Op_Mul\<rparr>,
      \<lparr>data = 1, grad = 0, backward_fn = Bw_Exp 2 3, prev = [2], op = Op_Exp\<rparr>,
      \<lparr>data = 1 / 2, grad = 0, backward_fn = Bw_Sigmoid 0 4, prev = [0], op = Op_Sigmoid\<rparr>]"

definition sigmoid_after :: heap where
  "sigmoid_after =
     [\<lparr>data = 0, grad = 1 / 4, backward_fn = Bw_None, prev = [], op = Op_Leaf\<rparr>,
      \<lparr>data = - 1, grad = 0, backward_fn = Bw_None, prev = [], op = Op_Leaf\<rparr>,
      \<lparr>data = 0, grad = 0, backward_fn = Bw_Mul 0 1 2, prev = [0, 1], op = Op_Mul\<rparr>,
      \<lparr>data = 1, grad = 0, backward_fn = Bw_Exp 2 3, prev = [2], op = Op_Exp\<rparr>,
      \<lparr>data = 1 / 2, grad = 1, backward_fn = Bw_Sigmoid 0 4, prev = [0], op = Op_Sigmoid\<rparr>]"

text \<open>\<^verbatim>\<open>a = Value(x); b = Value(y)\<close>.\<close>

definition two_leaves :: "real \<Rightarrow> real \<Rightarrow> heap" where
  "two_leaves x y =
     (let (h0, a) = Value_init [] x [] Op_Leaf;
          (h1, b) = Value_init h0 y [] Op_Leaf
      in h1)"


text \<open>\<^verbatim>\<open>a = Value(x)\<close>.\<close>

definition one_leaf :: "real \<Rightarrow> heap" where
  "one_leaf x = fst (Value_init [] x [] Op_Leaf)"

text \<open>The heaps after \<^verbatim>\<open>a = Value(5.0); c = a - 2\<close> and after
  \<^verbatim>\<open>a = Value(5.0); b = Value(2.0); c = a - b\<close>.\<close>

definition sub_raw_heap :: heap where
  "sub_raw_heap =
     [\<lparr>data = 5, grad = 0, backward_fn = Bw_None, prev = [], op = Op_Leaf\<rparr>,
      \<lparr>data = - 2, grad = 0, backward_fn = Bw_None, prev = [], op = Op_Leaf\<rparr>,
      \<lparr>data = 3, grad = 0, backward_fn = Bw_Add 0 1 2, prev = [0, 1], op = Op_Add\<rparr>]"

definition sub_leaf_heap :: heap where
  "sub_leaf_heap =
     [\<lparr>data = 5, grad = 0, backward_fn = Bw_None, prev = [], op = Op_Leaf\<rparr>,
      \<lparr>data = 2, grad = 0, backward_fn = Bw_None, prev = [], op = Op_Leaf\<rparr>,
      \<lparr>data = - 1, grad = 0, backward_fn = Bw_None, prev = [], op = Op_Leaf\<rparr>,
      \<lparr>data = - 2, grad = 0, backward_fn = Bw_Mul 1 2 3, prev = [1, 2], op = Op_Mul\<rparr>,
      \<lparr>data = 3, grad = 0, backward_fn = Bw_Add 0 3 4, prev = [0, 3], op = Op_Add\<rparr>]"

text \<open>The heap after \<^verbatim>\<open>a = Value(6.0); c = a / 2\<close>.\<close>

definition div_raw_heap :: heap where
  "div_raw_heap =
     [\<lparr>data = 6, grad = 0, backward_fn = Bw_None, prev = [], op = Op_Leaf\<rparr>,
      \<lparr>data = 1 / 2, grad = 0, backward_fn = Bw_None, prev = [], op = Op_Leaf\<rparr>,
      \<lparr>data = 3, grad = 0, backward_fn = Bw_Div 0 (Raw 2) 2, prev = [0, 1], op = Op_Mul\<rparr>]"

text \<open>An operand that is a \<^verbatim>\<open>Value\<close> is an object of the heap.\<close>

fun operand_ok :: "heap \<Rightarrow> operand \<Rightarrow> bool" where
  "operand_ok h (Ref r) = (r < length h)"
| "operand_ok h (Raw x) = True"

text \<open>The heap after \<^verbatim>\<open>a = Value(-5.0); c = a.elu(-1000.0)\<close>.\<close>

definition elu_heap :: heap where
  "elu_heap =
     [\<lparr>data = - 5, grad = 0, backward_fn = Bw_None, prev = [], op = Op_Leaf\<rparr>,
      \<lparr>data = exp (- 5), grad = 0, backward_fn = Bw_Exp 0 1, prev = [0], op = Op_Exp\<rparr>,
      \<lparr>data = - 1000 * (exp (- 5) - 1), grad = 0, backward_fn = Bw_ELU (- 1000) 0 2, prev = [0],
        op = Op_ELU (- 1000)\<rparr>]"

text \<open>The heaps after \<^verbatim>\<open>a = Value(0.0); b = a.tanh()\<close> and after \<^verbatim>\<open>b.backward()\<close>.\<close>

definition tanh_heap :: heap where
  "tanh_heap =
     [\<lparr>data = 0, grad = 0, backward_fn = Bw_None, prev = [], op = Op_Leaf\<rparr>,
      \<lparr>data = - 2, grad = 0, backward_fn = Bw_None, prev = [], op = Op_Leaf\<rparr>,
      \<lparr>data = 0, grad = 0, backward_fn = Bw_Mul 0 1 2, prev = [0, 1], op = Op_Mul\<rparr>,
      \<lparr>data = 1, grad = 0, backward_fn = Bw_Exp 2 3, prev = [2], op = Op_Exp\<rparr>,
      \<lparr>data = 0, grad = 0, backward_fn = Bw_Tanh 0 4, prev = [0], op = Op_Tanh\<rparr>]"

definition tanh_after :: heap where
  "tanh_after =
     [\<lparr>data = 0, grad = 1, backward_fn = Bw_None, prev = [], op = Op_Leaf\<rparr>,
      \<lparr>data = - 2, grad = 0, backward_fn = Bw_None, prev = [], op = Op_Leaf\<rparr>,
      \<lparr>data = 0, grad = 0, backward_fn = Bw_Mul 0 1 2, prev = [0, 1], op = Op_Mul\<rparr>,
      \<lparr>data = 1, grad = 0, backward_fn = Bw_Exp 2 3, prev = [2], op = Op_Exp\<rparr>,
      \<lparr>data = 0, grad = 1, backward_fn = Bw_Tanh 0 4, prev = [0], op = Op_Tanh\<rparr>]"

text \<open>\<^verbatim>\<open>a = Value(2.0) * Value(3.0); b = Value(2.0)\<close>, and the heaps after \<^verbatim>\<open>c = a / b\<close> and
  after \<^verbatim>\<open>c.backward()\<close>.\<close>

definition product_heap :: heap where
  "product_heap =
     (let (h0, x) = Value_init [] 2 [] Op_Leaf;
          (h1, y) = Value_init h0 3 [] Op_Leaf;
          (h2, a) = Value_mul h1 x (Ref y);
          (h3, b) = Value_init h2 2 [] Op_Leaf
      in h3)"

definition product_quotient :: heap where
  "product_quotient =
     [\<lparr>data = 2, grad = 0, backward_fn = Bw_None, prev = [], op = Op_Leaf\<rparr>,
      \<lparr>data = 3, grad = 0, backward_fn = Bw_None, prev = [], op = Op_Leaf\<rparr>,
      \<lparr>data = 6, grad = 0, backward_fn = Bw_Mul 0 1 2, prev = [0, 1], op = Op_Mul\<rparr>,
      \<lparr>data = 2, grad = 0, backward_fn = Bw_None, prev = [], op = Op_Leaf\<rparr>,
      \<lparr>data = - 1, grad = 0, backward_fn = Bw_None, prev = [], op = Op_Leaf\<rparr>,
      \<lparr>data = 1 / 2, grad = 0, backward_fn = Bw_Pow 3 4 5, prev = [3, 4], op = Op_Pow\<rparr>,
      \<lparr>data = 3, grad = 0, backward_fn = Bw_Div 2 (Ref 3) 6, prev = [2, 5], op = Op_Mul\<rparr>]"

definition product_quotient_after :: heap where
  "product_quotient_after =
     [\<lparr>data = 2, grad = 3 / 2, backward_fn = Bw_None, prev = [], op = Op_Leaf\<rparr>,
      \<lparr>data = 3, grad = 1, backward_fn = Bw_None, prev = [], op = Op_Leaf\<rparr>,
      \<lparr>data = 6, grad = 1 / 2, backward_fn = Bw_Mul 0 1 2, prev = [0, 1], op = Op_Mul\<rparr>,
      \<lparr>data = 2, grad = - (3 / 2), backward_fn = Bw_None, prev = [], op = Op_Leaf\<rparr>,
      \<lparr>data = - 1, grad = 0, backward_fn = Bw_None, prev = [], op = Op_Leaf\<rparr>,
      \<lparr>data = 1 / 2, grad = 0, backward_fn = Bw_Pow 3 4 5, prev = [3, 4], op = Op_Pow\<rparr>,
      \<lparr>data = 3, grad = 1, backward_fn = Bw_Div 2 (Ref 3) 6, prev = [2, 5], op = Op_Mul\<rparr>]"

text \<open>The heaps after \<^verbatim>\<open>a = Value(2.0); c = a / a\<close> and after \<^verbatim>\<open>c.backward()\<close>.\<close>

definition self_quotient :: heap where
  "self_quotient =
     [\<lparr>data = 2, grad = 0, backward_fn = Bw_None, prev = [], op = Op_Leaf\<rparr>,
      \<lparr>data = - 1, grad = 0, backward_fn = Bw_None, prev = [], op = Op_Leaf\<rparr>,
      \<lparr>data = 1 / 2, grad = 0, backward_fn = Bw_Pow 0 1 2, prev = [0, 1], op = Op_Pow\<rparr>,
      \<lparr>data = 1, grad = 0, backward_fn = Bw_Div 0 (Ref 0) 3, prev = [0, 2], op = Op_Mul\<rparr>]"

definition self_quotient_after :: heap where
  "self_quotient_after =
     [\<lparr>data = 2, grad = 0, backward_fn = Bw_None, prev = [], op = Op_Leaf\<rparr>,
      \<lparr>data = - 1, grad = 0, backward_fn = Bw_None, prev = [], op = Op_Leaf\<rparr>,
      \<lparr>data = 1 / 2, grad = 0, backward_fn = Bw_Pow 0 1 2, prev = [0, 1], op = Op_Pow\<rparr>,
      \<lparr>data = 1, grad = 1, backward_fn = Bw_Div 0 (Ref 0) 3, prev = [0, 2], op = Op_Mul\<rparr>]"

section \<open>The traversal\<close>

lemma build_topo_shape:
  "build_topo n h v st = Some st' \<Longrightarrow>
     \<exists>new. snd st' = snd st @ new \<and> fst st' = fst st \<union> set new \<and> set new \<inter> fst st = {} \<and> distinct new"
  "build_topo_children n h cs st = Some st' \<Longrightarrow>
     \<exists>new. snd st' = snd st @ new \<and> fst st' = fst st \<union> set new \<and> set new \<inter> fst st = {} \<and> distinct new"
proof (induction n h v st and n h cs st arbitrary: st' and st' rule: build_topo_build_topo_children.induct)
  case (1 h v st)
  then show ?case by simp
next
  case (2 n h v visited topo)
  show ?case
  proof (cases "v \<in> visited")
    case True
    with 2 show ?thesis by auto
  next
    case False
    with "2.prems" obtain vis1 topo1 where
      c: "build_topo_children n h (prev (h ! v)) (insert v visited, topo) = Some (vis1, topo1)"
      and st': "st' = (vis1, topo1 @ [v])"
      by (auto split: option.splits)
    from "2.IH"[OF False c] obtain new where
      n: "topo1 = topo @ new" "vis1 = insert v visited \<union> set new"
         "set new \<inter> insert v visited = {}" "distinct new"
      by auto
    show ?thesis
      by (rule exI[of _ "new @ [v]"]) (use n st' False in auto)
  qed
next
  case (3 n h st)
  then show ?case by simp
next
  case (4 n h child rest st)
  from "4.prems" obtain st1 where
    a: "build_topo n h child st = Some st1" and b: "build_topo_children n h rest st1 = Some st'"
    by (auto split: option.splits)
  from "4.IH"(1)[OF a] obtain new1 where
    n1: "snd st1 = snd st @ new1" "fst st1 = fst st \<union> set new1" "set new1 \<inter> fst st = {}" "distinct new1"
    by auto
  from "4.IH"(2)[OF a b] obtain new2 where
    n2: "snd st' = snd st1 @ new2" "fst st' = fst st1 \<union> set new2" "set new2 \<inter> fst st1 = {}" "distinct new2"
    by auto
  show ?case
    by (rule exI[of _ "new1 @ new2"]) (use n1 n2 in auto)
qed

text \<open>A node is grey while it is visited and not yet appended: it is on the stack of calls. In an
  acyclic graph no operand of a node being visited is grey, so every operand is in the
  list by the time the node is appended.\<close>

lemma build_topo_sorted:
  "build_topo n h v st = Some st' \<Longrightarrow> acyclic (operand_edges h) \<Longrightarrow> refs_ok h \<Longrightarrow>
     v < length h \<Longrightarrow> set (snd st) \<subseteq> fst st \<Longrightarrow> operands_later h (rev (snd st)) \<Longrightarrow>
     (\<forall>g\<in>fst st - set (snd st). (g, v) \<in> (operand_edges h)\<^sup>+) \<Longrightarrow>
     operands_later h (rev (snd st')) \<and> v \<in> set (snd st')"
  "build_topo_children n h cs st = Some st' \<Longrightarrow> acyclic (operand_edges h) \<Longrightarrow> refs_ok h \<Longrightarrow>
     (\<forall>c\<in>set cs. c < length h) \<Longrightarrow> set (snd st) \<subseteq> fst st \<Longrightarrow> operands_later h (rev (snd st)) \<Longrightarrow>
     (\<forall>c\<in>set cs. \<forall>g\<in>fst st - set (snd st). (g, c) \<in> (operand_edges h)\<^sup>+) \<Longrightarrow>
     operands_later h (rev (snd st')) \<and> set cs \<subseteq> set (snd st')"
proof (induction n h v st and n h cs st arbitrary: st' and st' rule: build_topo_build_topo_children.induct)
  case (1 h v st)
  then show ?case by simp
next
  case (2 n h v visited topo)
  let ?E = "operand_edges h"
  have notgray: "v \<notin> visited - set topo"
  proof
    assume "v \<in> visited - set topo"
    with "2.prems"(7) have "(v, v) \<in> ?E\<^sup>+" by auto
    with "2.prems"(2) show False by (simp add: acyclic_def)
  qed
  show ?case
  proof (cases "v \<in> visited")
    case True
    with notgray have "v \<in> set topo" by simp
    with True "2.prems" show ?thesis by auto
  next
    case False
    with "2.prems"(1) obtain vis1 topo1 where
      c: "build_topo_children n h (prev (h ! v)) (insert v visited, topo) = Some (vis1, topo1)"
      and st': "st' = (vis1, topo1 @ [v])"
      by (auto split: option.splits)
    have valid: "\<forall>c\<in>set (prev (h ! v)). c < length h"
      using "2.prems"(3,4) by (auto simp: refs_ok_def)
    have edge: "\<forall>c\<in>set (prev (h ! v)). (v, c) \<in> ?E"
      using "2.prems"(4) by (auto simp: operand_edges_def)
    have gray: "\<forall>c\<in>set (prev (h ! v)).
        \<forall>g\<in>fst (insert v visited, topo) - set (snd (insert v visited, topo)). (g, c) \<in> ?E\<^sup>+"
    proof (intro ballI)
      fix c g assume c: "c \<in> set (prev (h ! v))"
        and g: "g \<in> fst (insert v visited, topo) - set (snd (insert v visited, topo))"
      from c edge have vc: "(v, c) \<in> ?E" by blast
      show "(g, c) \<in> ?E\<^sup>+"
      proof (cases "g = v")
        case True
        with vc show ?thesis by auto
      next
        case False
        with g have "g \<in> visited - set topo" by auto
        with "2.prems"(7) have "(g, v) \<in> ?E\<^sup>+" by auto
        with vc show ?thesis by (meson trancl_into_trancl)
      qed
    qed
    have sub: "set (snd (insert v visited, topo)) \<subseteq> fst (insert v visited, topo)"
      using "2.prems"(5) by auto
    have ol: "operands_later h (rev (snd (insert v visited, topo)))"
      using "2.prems"(6) by simp
    from "2.IH"[OF False c "2.prems"(2,3) valid sub ol gray]
    have "operands_later h (rev topo1)" "set (prev (h ! v)) \<subseteq> set topo1" by auto
    with st' show ?thesis by simp
  qed
next
  case (3 n h st)
  then show ?case by simp
next
  case (4 n h child rest st)
  let ?E = "operand_edges h"
  from "4.prems"(1) obtain st1 where
    a: "build_topo n h child st = Some st1" and b: "build_topo_children n h rest st1 = Some st'"
    by (auto split: option.splits)
  from build_topo_shape(1)[OF a] obtain new1 where
    n1: "snd st1 = snd st @ new1" "fst st1 = fst st \<union> set new1" by auto
  from build_topo_shape(2)[OF b] obtain new2 where
    n2: "snd st' = snd st1 @ new2" by auto
  have g1: "\<forall>g\<in>fst st - set (snd st). (g, child) \<in> ?E\<^sup>+"
    using "4.prems"(7) by simp
  from "4.IH"(1)[OF a "4.prems"(2,3) _ "4.prems"(5,6) g1] "4.prems"(4)
  have r1: "operands_later h (rev (snd st1))" "child \<in> set (snd st1)" by auto
  have sub1: "set (snd st1) \<subseteq> fst st1" using n1 "4.prems"(5) by auto
  have gray1: "fst st1 - set (snd st1) \<subseteq> fst st - set (snd st)" using n1 by auto
  have g2: "\<forall>c\<in>set rest. \<forall>g\<in>fst st1 - set (snd st1). (g, c) \<in> ?E\<^sup>+"
    using "4.prems"(7) gray1 by auto
  from "4.IH"(2)[OF a b "4.prems"(2,3) _ sub1 r1(1) g2] "4.prems"(4)
  have r2: "operands_later h (rev (snd st'))" "set rest \<subseteq> set (snd st')" by auto
  from r1(2) n2 have "child \<in> set (snd st')" by simp
  with r2 show ?case by simp
qed

lemma build_topo_reach:
  "build_topo n h v st = Some st' \<Longrightarrow> refs_ok h \<Longrightarrow> v < length h \<Longrightarrow>
     set (snd st') \<subseteq> set (snd st) \<union> (operand_edges h)\<^sup>* `` {v}"
  "build_topo_children n h cs st = Some st' \<Longrightarrow> refs_ok h \<Longrightarrow> (\<forall>c\<in>set cs. c < length h) \<Longrightarrow>
     set (snd st') \<subseteq> set (snd st) \<union> (operand_edges h)\<^sup>* `` set cs"
proof (induction n h v st and n h cs st arbitrary: st' and st' rule: build_topo_build_topo_children.induct)
  case (1 h v st)
  then show ?case by simp
next
  case (2 n h v visited topo)
  let ?E = "operand_edges h"
  show ?case
  proof (cases "v \<in> visited")
    case True
    with "2.prems" show ?thesis by auto
  next
    case False
    with "2.prems"(1) obtain vis1 topo1 where
      c: "build_topo_children n h (prev (h ! v)) (insert v visited, topo) = Some (vis1, topo1)"
      and st': "st' = (vis1, topo1 @ [v])"
      by (auto split: option.splits)
    have valid: "\<forall>c\<in>set (prev (h ! v)). c < length h"
      using "2.prems"(2,3) by (auto simp: refs_ok_def)
    from "2.IH"[OF False c "2.prems"(2) valid]
    have sub: "set topo1 \<subseteq> set topo \<union> ?E\<^sup>* `` set (prev (h ! v))" by simp
    have "?E\<^sup>* `` set (prev (h ! v)) \<subseteq> ?E\<^sup>* `` {v}"
    proof
      fix x assume "x \<in> ?E\<^sup>* `` set (prev (h ! v))"
      then obtain c where c: "c \<in> set (prev (h ! v))" and cx: "(c, x) \<in> ?E\<^sup>*" by auto
      from c "2.prems"(3) have "(v, c) \<in> ?E" by (simp add: operand_edges_def)
      with cx have "(v, x) \<in> ?E\<^sup>*" by (meson converse_rtrancl_into_rtrancl)
      then show "x \<in> ?E\<^sup>* `` {v}" by simp
    qed
    with sub st' show ?thesis by auto
  qed
next
  case (3 n h st)
  then show ?case by simp
next
  case (4 n h child rest st)
  from "4.prems"(1) obtain st1 where
    a: "build_topo n h child st = Some st1" and b: "build_topo_children n h rest st1 = Some st'"
    by (auto split: option.splits)
  from "4.IH"(1)[OF a "4.prems"(2)] "4.prems"(3)
  have r1: "set (snd st1) \<subseteq> set (snd st) \<union> (operand_edges h)\<^sup>* `` {child}" by simp
  from "4.IH"(2)[OF a b "4.prems"(2)] "4.prems"(3)
  have r2: "set (snd st') \<subseteq> set (snd st1) \<union> (operand_edges h)\<^sup>* `` set rest" by simp
  from r1 r2 show ?case by auto
qed

lemma operands_later_closed:
  "operands_later h xs \<Longrightarrow> x \<in> set xs \<Longrightarrow> set (prev (h ! x)) \<subseteq> set xs"
  by (induction xs) auto

lemma operands_later_index:
  "operands_later h xs \<Longrightarrow> distinct xs \<Longrightarrow> i < length xs \<Longrightarrow> j < length xs \<Longrightarrow>
     xs ! j \<in> set (prev (h ! (xs ! i))) \<Longrightarrow> i < j"
proof (induction xs arbitrary: i j)
  case Nil
  then show ?case by simp
next
  case (Cons x xs)
  show ?case
  proof (cases i)
    case 0
    with Cons.prems have "(x # xs) ! j \<in> set xs" by auto
    with Cons.prems(2) have "j \<noteq> 0" by (cases j) auto
    with 0 show ?thesis by simp
  next
    case (Suc i')
    with Cons.prems have i': "i' < length xs" by simp
    have "set (prev (h ! (xs ! i'))) \<subseteq> set xs"
      using operands_later_closed[of h xs "xs ! i'"] Cons.prems(1) i' by simp
    with Cons.prems(5) Suc have mem: "(x # xs) ! j \<in> set xs" by auto
    with Cons.prems(2) obtain j' where j': "j = Suc j'" by (cases j) auto
    with Cons.IH[of i' j'] Cons.prems Suc show ?thesis by simp
  qed
qed

lemma build_topo_total:
  "refs_ok h \<Longrightarrow> v < length h \<Longrightarrow> card ({..<length h} - fst st) < n \<Longrightarrow>
     \<exists>st'. build_topo n h v st = Some st'"
  "refs_ok h \<Longrightarrow> (\<forall>c\<in>set cs. c < length h) \<Longrightarrow> card ({..<length h} - fst st) < n \<Longrightarrow>
     \<exists>st'. build_topo_children n h cs st = Some st'"
proof (induction n h v st and n h cs st rule: build_topo_build_topo_children.induct)
  case (1 h v st)
  then show ?case by simp
next
  case (2 n h v visited topo)
  show ?case
  proof (cases "v \<in> visited")
    case True
    then show ?thesis by simp
  next
    case False
    have valid: "\<forall>c\<in>set (prev (h ! v)). c < length h"
      using "2.prems"(1,2) by (auto simp: refs_ok_def)
    have "{..<length h} - insert v visited = ({..<length h} - visited) - {v}" by auto
    moreover have "v \<in> {..<length h} - visited" using False "2.prems"(2) by simp
    ultimately have "card ({..<length h} - insert v visited) < card ({..<length h} - visited)"
      by (metis card_Diff1_less finite_Diff finite_lessThan)
    with "2.prems"(3) have "card ({..<length h} - fst (insert v visited, topo)) < n" by simp
    from "2.IH"[OF False "2.prems"(1) valid this] False show ?thesis
      by (auto split: option.splits)
  qed
next
  case (3 n h st)
  then show ?case by simp
next
  case (4 n h child rest st)
  from "4.IH"(1)[OF "4.prems"(1) _ "4.prems"(3)] "4.prems"(2)
  obtain st1 where a: "build_topo n h child st = Some st1" by auto
  from build_topo_shape(1)[OF a] have "fst st \<subseteq> fst st1" by auto
  then have "card ({..<length h} - fst st1) \<le> card ({..<length h} - fst st)"
    by (intro card_mono) auto
  with "4.prems"(3) have "card ({..<length h} - fst st1) < n" by simp
  from "4.IH"(2)[OF a "4.prems"(1) _ this] "4.prems"(2) a show ?case by auto
qed

lemma build_topo_fuel_mono:
  "build_topo n h v st = Some st' \<Longrightarrow> n \<le> m \<Longrightarrow> build_topo m h v st = Some st'"
  "build_topo_children n h cs st = Some st' \<Longrightarrow> n \<le> m \<Longrightarrow> build_topo_children m h cs st = Some st'"
proof (induction n h v st and n h cs st arbitrary: st' m and st' m rule: build_topo_build_topo_children.induct)
  case (1 h v st)
  then show ?case by simp
next
  case (2 n h v visited topo)
  from "2.prems"(2) obtain m' where m: "m = Suc m'" and le: "n \<le> m'" by (cases m) auto
  show ?case
  proof (cases "v \<in> visited")
    case True
    with "2.prems" m show ?thesis by auto
  next
    case False
    with "2.prems"(1) obtain st1 where
      c: "build_topo_children n h (prev (h ! v)) (insert v visited, topo) = Some st1"
      by (auto split: option.splits)
    from "2.IH"[OF False c le] c "2.prems"(1) False m show ?thesis by simp
  qed
next
  case (3 n h st)
  then show ?case by simp
next
  case (4 n h child rest st)
  from "4.prems"(1) obtain st1 where
    a: "build_topo n h child st = Some st1" and b: "build_topo_children n h rest st1 = Some st'"
    by (auto split: option.splits)
  from "4.IH"(1)[OF a "4.prems"(2)] "4.IH"(2)[OF a b "4.prems"(2)] show ?case by simp
qed

lemma build_topo_same_prev:
  "refs_ok h \<Longrightarrow> v < length h \<Longrightarrow> \<forall>i<length h. prev (h' ! i) = prev (h ! i) \<Longrightarrow>
     build_topo n h' v st = build_topo n h v st"
  "refs_ok h \<Longrightarrow> (\<forall>c\<in>set cs. c < length h) \<Longrightarrow> \<forall>i<length h. prev (h' ! i) = prev (h ! i) \<Longrightarrow>
     build_topo_children n h' cs st = build_topo_children n h cs st"
proof (induction n h v st and n h cs st rule: build_topo_build_topo_children.induct)
  case (1 h v st)
  then show ?case by simp
next
  case (2 n h v visited topo)
  show ?case
  proof (cases "v \<in> visited")
    case True
    then show ?thesis by simp
  next
    case False
    have valid: "\<forall>c\<in>set (prev (h ! v)). c < length h"
      using "2.prems"(1,2) by (auto simp: refs_ok_def)
    from "2.IH"[OF False "2.prems"(1) valid "2.prems"(3)] "2.prems"(2,3) False
    show ?thesis by simp
  qed
next
  case (3 n h st)
  then show ?case by simp
next
  case (4 n h child rest st)
  from "4.IH"(1)[OF "4.prems"(1) _ "4.prems"(3)] "4.prems"(2)
  have a: "build_topo n h' child st = build_topo n h child st" by simp
  show ?case
  proof (cases "build_topo n h child st")
    case None
    with a show ?thesis by simp
  next
    case (Some st1)
    from "4.IH"(2)[OF Some "4.prems"(1) _ "4.prems"(3)] "4.prems"(2) a Some show ?thesis by simp
  qed
qed

section \<open>The closures\<close>

lemma py_pow_value: "py_pow v w = Inr r \<Longrightarrow> r = pow_value v w"
proof -
  assume a: "py_pow v w = Inr r"
  show ?thesis
  proof (cases "w = 0 \<or> v = 0")
    case True
    with a show ?thesis by (auto simp: py_pow_def pow_value_def split: if_splits)
  next
    case False
    then have nz: "w \<noteq> 0" "v \<noteq> 0" by auto
    show ?thesis
    proof (cases "v < 0")
      case neg: True
      show ?thesis
      proof (cases "real_of_int \<lfloor>w\<rfloor> = w")
        case int: True
        show ?thesis
        proof (cases "odd \<lfloor>w\<rfloor>")
          case True
          with a nz neg int show ?thesis
            by (simp add: py_pow_def pow_value_def Let_def split: if_split_asm)
        next
          case False
          with a nz neg int show ?thesis
            by (simp add: py_pow_def pow_value_def Let_def split: if_split_asm)
        qed
      next
        case False
        with a nz neg show ?thesis by (simp add: py_pow_def)
      qed
    next
      case False
      with a nz show ?thesis
        by (simp add: py_pow_def pow_value_def Let_def split: if_split_asm)
    qed
  qed
qed

lemma and_then_Inr: "and_then m f = Inr y \<longleftrightarrow> (\<exists>x. m = Inr x \<and> f x = Inr y)"
  by (cases m) (simp_all add: and_then_def)

lemma py_truediv_Inr: "py_truediv x y = Inr q \<longleftrightarrow> y \<noteq> 0 \<and> q = x / y"
  by (auto simp: py_truediv_def)

lemma py_log_Inr: "py_log x = Inr l \<longleftrightarrow> 0 < x \<and> l = ln x"
  by (auto simp: py_log_def)

lemma py_exp_Inr:
  "py_exp x = Inr y \<longleftrightarrow> (overflow_bound \<le> x \<or> exp x < overflow_bound) \<and> y = exp x"
  by (auto simp: py_exp_def)

lemma pow_value_2: "pow_value v 2 = v\<^sup>2"
  by (auto simp: pow_value_def)

lemma length_add_grad: "length (add_grad h v d) = length h"
  by (simp add: add_grad_def)

lemma add_grad_nth:
  "add_grad h v d ! x = (if x = v \<and> v < length h then (h ! x)\<lparr>grad := grad (h ! x) + d\<rparr> else h ! x)"
proof (cases "v < length h")
  case True
  then show ?thesis by (simp add: add_grad_def nth_list_update)
next
  case False
  then have "length h \<le> v" by simp
  then have "h[v := (h ! v)\<lparr>grad := grad (h ! v) + d\<rparr>] = h" by (rule list_update_beyond)
  with False show ?thesis by (simp add: add_grad_def)
qed

lemma add_grad_frame:
  "data (add_grad h v d ! x) = data (h ! x)"
  "prev (add_grad h v d ! x) = prev (h ! x)"
  "op (add_grad h v d ! x) = op (h ! x)"
  "backward_fn (add_grad h v d ! x) = backward_fn (h ! x)"
  by (simp_all add: add_grad_nth)

lemma grad_add_grad:
  "v < length h \<Longrightarrow> grad (add_grad h v d ! x) = grad (h ! x) + (if x = v then d else 0)"
  by (simp add: add_grad_nth)

lemma Value_exp_Inr:
  "Value_exp h s = Inr (h1, e) \<Longrightarrow>
     e = length h \<and> length h1 = Suc (length h) \<and> (\<forall>x<length h. h1 ! x = h ! x)
     \<and> data (h1 ! e) = exp (data (h ! s))"
  by (auto simp: Value_exp_def Value_init_def and_then_Inr py_exp_Inr set_backward_def nth_append)

lemma run_closure_frame:
  assumes "run_closure h c = Inr h'"
  shows "length h \<le> length h' \<and> (\<forall>x<length h. data (h' ! x) = data (h ! x) \<and> prev (h' ! x) = prev (h ! x)
     \<and> op (h' ! x) = op (h ! x) \<and> backward_fn (h' ! x) = backward_fn (h ! x))"
proof (cases c)
  case Bw_None
  with assms show ?thesis by simp
next
  case (Bw_Add s other out)
  with assms show ?thesis by (auto simp: Let_def length_add_grad add_grad_frame)
next
  case (Bw_Mul s other out)
  with assms show ?thesis by (auto simp: Let_def length_add_grad add_grad_frame)
next
  case (Bw_Div s other out)
  show ?thesis
  proof (cases other)
    case (Ref r)
    with assms Bw_Div show ?thesis
      by (auto simp: Let_def and_then_Inr length_add_grad add_grad_frame)
  next
    case (Raw y)
    with assms Bw_Div show ?thesis by simp
  qed
next
  case (Bw_Pow s other out)
  with assms show ?thesis
    by (auto simp: Let_def and_then_Inr length_add_grad add_grad_frame)
next
  case (Bw_ReLU s out)
  with assms show ?thesis by (auto simp: length_add_grad add_grad_frame)
next
  case (Bw_Sigmoid s out)
  with assms show ?thesis by (auto simp: length_add_grad add_grad_frame)
next
  case (Bw_Tanh s out)
  with assms show ?thesis by (auto simp: and_then_Inr length_add_grad add_grad_frame)
next
  case (Bw_LeakyReLU alpha s out)
  with assms show ?thesis by (auto simp: length_add_grad add_grad_frame)
next
  case (Bw_ELU alpha s out)
  show ?thesis
  proof (cases "data (h ! s) < 0")
    case True
    with assms Bw_ELU obtain h1 e where
      e: "Value_exp h out = Inr (h1, e)" and h': "h' = add_grad h1 s (alpha * data (h1 ! e) * grad (h1 ! out))"
      by (auto simp: and_then_Inr)
    from Value_exp_Inr[OF e] h' show ?thesis by (simp add: length_add_grad add_grad_frame)
  next
    case False
    with assms Bw_ELU show ?thesis by (auto simp: and_then_Inr length_add_grad add_grad_frame)
  qed
next
  case (Bw_Exp s out)
  with assms show ?thesis by (auto simp: length_add_grad add_grad_frame)
qed

lemma run_closure_grad:
  assumes run: "run_closure h c = Inr h'"
    and tg: "\<forall>t\<in>set (closure_targets c). t < length h"
    and out: "\<forall>out. closure_out c = Some out \<longrightarrow> out < length h \<and> out \<notin> set (closure_targets c)"
    and x: "x < length h"
  shows "grad (h' ! x) = grad (h ! x) + contribution h c x"
proof (cases c)
  case Bw_None
  with run show ?thesis by simp
next
  case (Bw_Add s other out)
  with run tg out show ?thesis
    by (auto simp: Let_def grad_add_grad length_add_grad)
next
  case (Bw_Mul s other out)
  with run tg out show ?thesis
    by (auto simp: Let_def grad_add_grad length_add_grad add_grad_frame)
next
  case (Bw_Div s other out)
  show ?thesis
  proof (cases other)
    case (Ref r)
    with run tg out Bw_Div show ?thesis
      by (auto simp: Let_def and_then_Inr py_truediv_Inr grad_add_grad length_add_grad add_grad_frame
          pow_value_2 dest!: py_pow_value)
  next
    case (Raw y)
    with run Bw_Div show ?thesis by simp
  qed
next
  case (Bw_Pow s other out)
  with run tg out show ?thesis
    by (auto simp: Let_def and_then_Inr py_log_Inr grad_add_grad length_add_grad add_grad_frame
        split: if_split_asm dest!: py_pow_value)
next
  case (Bw_ReLU s out)
  with run tg show ?thesis by (auto simp: grad_add_grad)
next
  case (Bw_Sigmoid s out)
  with run tg show ?thesis by (auto simp: grad_add_grad)
next
  case (Bw_Tanh s out)
  with run tg show ?thesis
    by (auto simp: and_then_Inr grad_add_grad pow_value_2 dest!: py_pow_value)
next
  case (Bw_LeakyReLU alpha s out)
  with run tg show ?thesis by (auto simp: grad_add_grad)
next
  case (Bw_ELU alpha s out)
  show ?thesis
  proof (cases "data (h ! s) < 0")
    case True
    with run Bw_ELU obtain h1 e where
      e: "Value_exp h out = Inr (h1, e)" and h': "h' = add_grad h1 s (alpha * data (h1 ! e) * grad (h1 ! out))"
      by (auto simp: and_then_Inr)
    from Value_exp_Inr[OF e] have h1: "length h1 = Suc (length h)" "\<forall>x<length h. h1 ! x = h ! x"
      "data (h1 ! e) = exp (data (h ! out))" by auto
    from tg out Bw_ELU have s: "s < length h" and o: "out < length h" by auto
    from s h1 have "s < length h1" by simp
    then have "grad (h' ! x) = grad (h1 ! x) + (if x = s then alpha * data (h1 ! e) * grad (h1 ! out) else 0)"
      unfolding h' by (rule grad_add_grad)
    with h1 x o True Bw_ELU show ?thesis by simp
  next
    case False
    with run tg Bw_ELU show ?thesis by (auto simp: and_then_Inr grad_add_grad)
  qed
next
  case (Bw_Exp s out)
  with run tg show ?thesis by (auto simp: grad_add_grad)
qed

lemma contribution_zero: "x \<notin> set (closure_targets c) \<Longrightarrow> contribution h c x = 0"
proof (cases c)
  case (Bw_Div s other out)
  then show "x \<notin> set (closure_targets c) \<Longrightarrow> contribution h c x = 0"
    by (cases other) auto
qed auto

lemma contribution_cong:
  assumes "\<forall>i<n. data (h1 ! i) = data (h2 ! i)"
    and "\<forall>t\<in>set (closure_targets c). t < n"
    and "\<forall>out. closure_out c = Some out \<longrightarrow> out < n \<and> grad (h1 ! out) = grad (h2 ! out)"
  shows "contribution h1 c x = contribution h2 c x"
proof (cases c)
  case (Bw_Div s other out)
  with assms show ?thesis by (cases other) auto
qed (use assms in auto)

lemma run_all_frame:
  "run_all h vs = Inr h' \<Longrightarrow>
     length h \<le> length h' \<and> (\<forall>x<length h. data (h' ! x) = data (h ! x) \<and> prev (h' ! x) = prev (h ! x)
     \<and> op (h' ! x) = op (h ! x) \<and> backward_fn (h' ! x) = backward_fn (h ! x))"
proof (induction vs arbitrary: h)
  case Nil
  then show ?case by simp
next
  case (Cons v vs)
  from Cons.prems obtain h1 where
    a: "run_closure h (backward_fn (h ! v)) = Inr h1" and b: "run_all h1 vs = Inr h'"
    by (auto simp: and_then_Inr)
  from run_closure_frame[OF a] Cons.IH[OF b] show ?case by auto
qed

lemma run_all_untouched:
  assumes "run_all h vs = Inr h'" and "n \<le> length h"
    and "\<forall>v\<in>set vs. v < n \<and> backward_fn (h ! v) = cl v
           \<and> (\<forall>t\<in>set (closure_targets (cl v)). t < n \<and> t \<noteq> v)
           \<and> (closure_out (cl v) = None \<or> closure_out (cl v) = Some v)"
    and "\<forall>c\<in>set vs. x \<notin> set (closure_targets (cl c))"
    and "x < n"
  shows "grad (h' ! x) = grad (h ! x)"
  using assms
proof (induction vs arbitrary: h)
  case Nil
  then show ?case by simp
next
  case (Cons v vs)
  from Cons.prems(1) obtain h1 where
    a: "run_closure h (backward_fn (h ! v)) = Inr h1" and b: "run_all h1 vs = Inr h'"
    by (auto simp: and_then_Inr)
  from Cons.prems(3) have v: "v < n" "backward_fn (h ! v) = cl v"
    "\<forall>t\<in>set (closure_targets (cl v)). t < n \<and> t \<noteq> v"
    "closure_out (cl v) = None \<or> closure_out (cl v) = Some v" by auto
  from run_closure_frame[OF a] have fr: "length h \<le> length h1"
    "\<forall>x<length h. backward_fn (h1 ! x) = backward_fn (h ! x)" by auto
  have "grad (h1 ! x) = grad (h ! x) + contribution h (cl v) x"
  proof (rule run_closure_grad)
    show "run_closure h (cl v) = Inr h1" using a v(2) by simp
    show "\<forall>t\<in>set (closure_targets (cl v)). t < length h" using v(3) Cons.prems(2) by auto
    show "\<forall>out. closure_out (cl v) = Some out \<longrightarrow> out < length h \<and> out \<notin> set (closure_targets (cl v))"
      using v(1,3,4) Cons.prems(2) by auto
    show "x < length h" using Cons.prems(2,5) by simp
  qed
  moreover have "contribution h (cl v) x = 0"
    using Cons.prems(4) by (intro contribution_zero) simp
  ultimately have g1: "grad (h1 ! x) = grad (h ! x)" by simp
  have "grad (h' ! x) = grad (h1 ! x)"
  proof (rule Cons.IH[OF b])
    show "n \<le> length h1" using fr(1) Cons.prems(2) by simp
    show "\<forall>v\<in>set vs. v < n \<and> backward_fn (h1 ! v) = cl v
           \<and> (\<forall>t\<in>set (closure_targets (cl v)). t < n \<and> t \<noteq> v)
           \<and> (closure_out (cl v) = None \<or> closure_out (cl v) = Some v)"
      using Cons.prems(2,3) fr(2) by auto
    show "\<forall>c\<in>set vs. x \<notin> set (closure_targets (cl c))" using Cons.prems(4) by simp
    show "x < n" by fact
  qed
  with g1 show ?case by simp
qed

lemma run_all_grad:
  assumes "run_all h vs = Inr h'" and "n \<le> length h"
    and "\<forall>v\<in>set vs. v < n \<and> backward_fn (h ! v) = cl v
           \<and> (\<forall>t\<in>set (closure_targets (cl v)). t < n \<and> t \<noteq> v)
           \<and> (closure_out (cl v) = None \<or> closure_out (cl v) = Some v)"
    and "no_back_writes cl vs"
    and "x < n"
  shows "grad (h' ! x) = grad (h ! x) + (\<Sum>v\<leftarrow>vs. contribution h' (cl v) x)"
  using assms
proof (induction vs arbitrary: h)
  case Nil
  then show ?case by simp
next
  case (Cons v vs)
  from Cons.prems(1) obtain h1 where
    a: "run_closure h (backward_fn (h ! v)) = Inr h1" and b: "run_all h1 vs = Inr h'"
    by (auto simp: and_then_Inr)
  from Cons.prems(3) have v: "v < n" "backward_fn (h ! v) = cl v"
    "\<forall>t\<in>set (closure_targets (cl v)). t < n \<and> t \<noteq> v"
    "closure_out (cl v) = None \<or> closure_out (cl v) = Some v" by auto
  from run_closure_frame[OF a] have fr: "length h \<le> length h1"
    "\<forall>x<length h. backward_fn (h1 ! x) = backward_fn (h ! x)" by auto
  from run_all_frame[OF Cons.prems(1)] have fr': "\<forall>x<length h. data (h' ! x) = data (h ! x)" by auto
  have g1: "grad (h1 ! x) = grad (h ! x) + contribution h (cl v) x"
  proof (rule run_closure_grad)
    show "run_closure h (cl v) = Inr h1" using a v(2) by simp
    show "\<forall>t\<in>set (closure_targets (cl v)). t < length h" using v(3) Cons.prems(2) by auto
    show "\<forall>out. closure_out (cl v) = Some out \<longrightarrow> out < length h \<and> out \<notin> set (closure_targets (cl v))"
      using v(1,3,4) Cons.prems(2) by auto
    show "x < length h" using Cons.prems(2,5) by simp
  qed
  have same_v: "grad (h' ! v) = grad (h ! v)"
  proof (rule run_all_untouched[OF Cons.prems(1,2,3)])
    show "\<forall>c\<in>set (v # vs). v \<notin> set (closure_targets (cl c))" using Cons.prems(4) by simp
    show "v < n" by fact
  qed
  have cong: "contribution h (cl v) x = contribution h' (cl v) x"
  proof (rule contribution_cong[where n = n])
    show "\<forall>i<n. data (h ! i) = data (h' ! i)" using fr' Cons.prems(2) by auto
    show "\<forall>t\<in>set (closure_targets (cl v)). t < n" using v(3) by auto
    show "\<forall>out. closure_out (cl v) = Some out \<longrightarrow> out < n \<and> grad (h ! out) = grad (h' ! out)"
      using v(1,4) same_v by auto
  qed
  have "grad (h' ! x) = grad (h1 ! x) + (\<Sum>v\<leftarrow>vs. contribution h' (cl v) x)"
  proof (rule Cons.IH[OF b])
    show "n \<le> length h1" using fr(1) Cons.prems(2) by simp
    show "\<forall>v\<in>set vs. v < n \<and> backward_fn (h1 ! v) = cl v
           \<and> (\<forall>t\<in>set (closure_targets (cl v)). t < n \<and> t \<noteq> v)
           \<and> (closure_out (cl v) = None \<or> closure_out (cl v) = Some v)"
      using Cons.prems(2,3) fr(2) by auto
    show "no_back_writes cl vs" using Cons.prems(4) by simp
    show "x < n" by fact
  qed
  with g1 cong show ?case by simp
qed

section \<open>The backward pass\<close>

lemma wf_heap_node: "wf_heap h \<Longrightarrow> i < length h \<Longrightarrow> wf_node h i"
  by (simp add: wf_heap_def)

lemma wf_heap_children: "wf_heap h \<Longrightarrow> i < length h \<Longrightarrow> c \<in> set (prev (h ! i)) \<Longrightarrow> c < i"
  by (auto simp: wf_heap_def wf_node_def)

lemma wf_heap_refs_ok: "wf_heap h \<Longrightarrow> refs_ok h"
  unfolding refs_ok_def by (meson wf_heap_children less_trans)

lemma wf_heap_acyclic: "wf_heap h \<Longrightarrow> acyclic (operand_edges h)"
proof -
  assume wf: "wf_heap h"
  have "operand_edges h \<subseteq> less_than\<inverse>"
    using wf_heap_children[OF wf] by (auto simp: operand_edges_def)
  moreover have "acyclic (less_than\<inverse>)"
    by (simp add: acyclic_converse wf_acyclic)
  ultimately show ?thesis by (rule acyclic_subset[rotated])
qed

lemma reachable_in_heap:
  "(a, b) \<in> (operand_edges h)\<^sup>* \<Longrightarrow> refs_ok h \<Longrightarrow> a < length h \<Longrightarrow> b < length h"
  by (induction rule: rtrancl_induct) (auto simp: operand_edges_def refs_ok_def)

lemma closed_reachable:
  "(a, b) \<in> (operand_edges h)\<^sup>* \<Longrightarrow> a \<in> S \<Longrightarrow> \<forall>x\<in>S. set (prev (h ! x)) \<subseteq> S \<Longrightarrow> b \<in> S"
  by (induction rule: rtrancl_induct) (auto simp: operand_edges_def)

lemma build_topo_root_last:
  assumes "build_topo (Suc n) h rt ({}, []) = Some (vis, topo)"
  shows "\<exists>topo1. topo = topo1 @ [rt]"
proof (cases "build_topo_children n h (prev (h ! rt)) ({rt}, [])")
  case None
  with assms show ?thesis by simp
next
  case (Some st)
  with assms show ?thesis by (cases st) auto
qed

lemma backward_order_sorted:
  assumes ac: "acyclic (operand_edges h)" and ok: "refs_ok h" and rt: "rt < length h"
  shows "\<exists>rest. backward_order h rt = Some (rt # rest) \<and> distinct (rt # rest)
           \<and> set (rt # rest) = (operand_edges h)\<^sup>* `` {rt} \<and> operands_later h (rt # rest)"
proof -
  have "card ({..<length h} - fst ({}::ref set, []::ref list)) < Suc (length h)" by simp
  from build_topo_total(1)[OF ok rt this]
  obtain st where bt0: "build_topo (Suc (length h)) h rt ({}, []) = Some st" by blast
  obtain vis topo where st: "st = (vis, topo)" by (cases st)
  from bt0 st have bt: "build_topo (Suc (length h)) h rt ({}, []) = Some (vis, topo)" by simp
  from build_topo_root_last[OF bt] obtain topo1 where topo: "topo = topo1 @ [rt]" by blast
  from build_topo_shape(1)[OF bt] have dist: "distinct topo" by auto
  from build_topo_sorted(1)[OF bt ac ok rt] have sorted: "operands_later h (rev topo)" by simp
  from build_topo_reach(1)[OF bt ok rt] have sub: "set topo \<subseteq> (operand_edges h)\<^sup>* `` {rt}" by simp
  have closed: "\<forall>x\<in>set (rev topo). set (prev (h ! x)) \<subseteq> set (rev topo)"
    using operands_later_closed[OF sorted] by blast
  have "(operand_edges h)\<^sup>* `` {rt} \<subseteq> set (rev topo)"
  proof
    fix b assume "b \<in> (operand_edges h)\<^sup>* `` {rt}"
    then have "(rt, b) \<in> (operand_edges h)\<^sup>*" by simp
    moreover have "rt \<in> set (rev topo)" using topo by simp
    ultimately show "b \<in> set (rev topo)" using closed by (rule closed_reachable)
  qed
  with sub have eq: "set (rev topo) = (operand_edges h)\<^sup>* `` {rt}" by auto
  have "backward_order h rt = Some (rev topo)"
    by (simp add: backward_order_def bt del: build_topo.simps)
  with topo dist sorted eq show ?thesis by auto
qed

lemma no_back_writes_sorted:
  "operands_later h xs \<Longrightarrow> distinct xs \<Longrightarrow> \<forall>c\<in>set xs. wf_node h c \<Longrightarrow>
     no_back_writes (\<lambda>v. backward_fn (h ! v)) xs"
proof (induction xs)
  case Nil
  then show ?case by simp
next
  case (Cons v rest)
  have closed: "\<And>c. c \<in> set rest \<Longrightarrow> set (prev (h ! c)) \<subseteq> set rest"
    using operands_later_closed[of h rest] Cons.prems(1) by simp
  have tg_rest: "set (closure_targets (backward_fn (h ! c))) \<subseteq> set rest" if c: "c \<in> set (v # rest)" for c
  proof
    fix t assume t: "t \<in> set (closure_targets (backward_fn (h ! c)))"
    from Cons.prems(1) c closed have pc: "set (prev (h ! c)) \<subseteq> set rest" by auto
    from Cons.prems(3) c have "wf_node h c" by blast
    with t have "t \<in> set (prev (h ! c)) \<or> (\<exists>p\<in>set (prev (h ! c)). t \<in> set (prev (h ! p)))"
      by (auto simp: wf_node_def)
    with pc closed show "t \<in> set rest" by blast
  qed
  have "\<forall>c\<in>set (v # rest). v \<notin> set (closure_targets (backward_fn (h ! c)))"
    using tg_rest Cons.prems(2) by auto
  moreover have "no_back_writes (\<lambda>v. backward_fn (h ! v)) rest"
    using Cons by simp
  ultimately show ?case by simp
qed

lemma wf_node_targets:
  assumes "wf_heap h" "v < length h" "t \<in> set (closure_targets (backward_fn (h ! v)))"
  shows "t < v"
proof -
  from assms have n: "wf_node h v" by (simp add: wf_heap_node)
  with assms(3) consider "t \<in> set (prev (h ! v))" | p where "p \<in> set (prev (h ! v))" "t \<in> set (prev (h ! p))"
    by (auto simp: wf_node_def)
  then show ?thesis
  proof cases
    case 1
    with assms show ?thesis by (simp add: wf_heap_children)
  next
    case 2
    from 2(1) assms have "p < v" by (simp add: wf_heap_children)
    moreover from this assms(2) 2(2) assms(1) have "t < p" by (simp add: wf_heap_children)
    ultimately show ?thesis by simp
  qed
qed

lemma backward_order_same:
  assumes wf: "wf_heap h" and rt: "rt < length h" and len: "length h \<le> length h1"
    and pr: "\<forall>i<length h. prev (h1 ! i) = prev (h ! i)"
  shows "backward_order h1 rt = backward_order h rt"
proof -
  have ok: "refs_ok h" using wf by (rule wf_heap_refs_ok)
  have "card ({..<length h} - fst ({}::ref set, []::ref list)) < Suc (length h)" by simp
  from build_topo_total(1)[OF ok rt this]
  obtain st where bt: "build_topo (Suc (length h)) h rt ({}, []) = Some st" by blast
  from build_topo_fuel_mono(1)[OF bt, of "Suc (length h1)"] len
  have "build_topo (Suc (length h1)) h rt ({}, []) = Some st" by simp
  moreover have "build_topo (Suc (length h1)) h1 rt ({}, []) = build_topo (Suc (length h1)) h rt ({}, [])"
    using ok rt pr by (rule build_topo_same_prev(1))
  ultimately show ?thesis by (simp add: backward_order_def bt del: build_topo.simps)
qed

lemma set_grad_nth:
  "set_grad h v g ! x = (if x = v \<and> v < length h then (h ! x)\<lparr>grad := g\<rparr> else h ! x)"
proof (cases "v < length h")
  case True
  then show ?thesis by (simp add: set_grad_def nth_list_update)
next
  case False
  then have "length h \<le> v" by simp
  then have "h[v := (h ! v)\<lparr>grad := g\<rparr>] = h" by (rule list_update_beyond)
  with False show ?thesis by (simp add: set_grad_def)
qed

lemma length_set_grad: "length (set_grad h v g) = length h"
  by (simp add: set_grad_def)

lemma backward_effect:
  assumes wf: "wf_heap h" and rt: "rt < length h" and len: "length h \<le> length h1"
    and same: "\<forall>i<length h. data (h1 ! i) = data (h ! i) \<and> prev (h1 ! i) = prev (h ! i)
                 \<and> backward_fn (h1 ! i) = backward_fn (h ! i)"
    and run: "Value_backward h1 rt = Some (Inr h2)"
  shows "\<exists>rest. backward_order h rt = Some (rt # rest) \<and> distinct (rt # rest)
           \<and> set (rt # rest) = (operand_edges h)\<^sup>* `` {rt}
           \<and> grad (h2 ! rt) = 1
           \<and> (\<forall>x<length h. x \<noteq> rt \<longrightarrow>
                grad (h2 ! x) = grad (h1 ! x)
                  + (\<Sum>v\<leftarrow>rt # rest. contribution h2 (backward_fn (h ! v)) x))"
proof -
  have ok: "refs_ok h" using wf by (rule wf_heap_refs_ok)
  have ac: "acyclic (operand_edges h)" using wf by (rule wf_heap_acyclic)
  from backward_order_sorted[OF ac ok rt] obtain rest where
    ord: "backward_order h rt = Some (rt # rest)" and dist: "distinct (rt # rest)"
    and reach: "set (rt # rest) = (operand_edges h)\<^sup>* `` {rt}"
    and sorted: "operands_later h (rt # rest)" by blast
  let ?order = "rt # rest"
  let ?cl = "\<lambda>v. backward_fn (h ! v)"
  let ?h0 = "set_grad h1 rt 1"
  have inheap: "\<forall>v\<in>set ?order. v < length h"
  proof
    fix v assume "v \<in> set ?order"
    with reach have "(rt, v) \<in> (operand_edges h)\<^sup>*" by auto
    then show "v < length h" using ok rt by (rule reachable_in_heap)
  qed
  have nodes: "\<forall>c\<in>set ?order. wf_node h c" using inheap wf by (blast intro: wf_heap_node)
  have nbw: "no_back_writes ?cl ?order" using sorted dist nodes by (rule no_back_writes_sorted)
  have "backward_order h1 rt = backward_order h rt"
    using wf rt len same by (intro backward_order_same) auto
  with run ord have ra: "run_all ?h0 ?order = Inr h2" by (simp add: Value_backward_def)
  have n: "length h \<le> length ?h0" using len by (simp add: length_set_grad)
  have cls: "\<forall>v\<in>set ?order. v < length h \<and> backward_fn (?h0 ! v) = ?cl v
           \<and> (\<forall>t\<in>set (closure_targets (?cl v)). t < length h \<and> t \<noteq> v)
           \<and> (closure_out (?cl v) = None \<or> closure_out (?cl v) = Some v)"
  proof
    fix v assume v: "v \<in> set ?order"
    with inheap have vl: "v < length h" by blast
    have a: "backward_fn (?h0 ! v) = ?cl v" using same vl by (simp add: set_grad_nth)
    have b: "\<forall>t\<in>set (closure_targets (?cl v)). t < length h \<and> t \<noteq> v"
      using wf_node_targets[OF wf vl] vl by fastforce
    have c: "closure_out (?cl v) = None \<or> closure_out (?cl v) = Some v"
      using wf_heap_node[OF wf vl] by (simp add: wf_node_def)
    from vl a b c show "v < length h \<and> backward_fn (?h0 ! v) = ?cl v
           \<and> (\<forall>t\<in>set (closure_targets (?cl v)). t < length h \<and> t \<noteq> v)
           \<and> (closure_out (?cl v) = None \<or> closure_out (?cl v) = Some v)" by blast
  qed
  have "grad (h2 ! rt) = grad (?h0 ! rt)"
  proof (rule run_all_untouched[OF ra n cls])
    show "\<forall>c\<in>set ?order. rt \<notin> set (closure_targets (?cl c))" using nbw by simp
    show "rt < length h" by fact
  qed
  then have root: "grad (h2 ! rt) = 1" using rt len by (simp add: set_grad_nth)
  have acc: "\<forall>x<length h. x \<noteq> rt \<longrightarrow>
      grad (h2 ! x) = grad (h1 ! x) + (\<Sum>v\<leftarrow>?order. contribution h2 (?cl v) x)"
  proof (intro allI impI)
    fix x assume x: "x < length h" and ne: "x \<noteq> rt"
    from run_all_grad[OF ra n cls nbw x]
    have "grad (h2 ! x) = grad (?h0 ! x) + (\<Sum>v\<leftarrow>?order. contribution h2 (?cl v) x)" .
    with ne show "grad (h2 ! x) = grad (h1 ! x) + (\<Sum>v\<leftarrow>?order. contribution h2 (?cl v) x)"
      by (simp add: set_grad_nth)
  qed
  from ord dist reach root acc show ?thesis by blast
qed

section \<open>The claims\<close>

lemma diamond_heap_eq:
  "diamond_heap =
     [\<lparr>data = 3, grad = 0, backward_fn = Bw_None, prev = [], op = Op_Leaf\<rparr>,
      \<lparr>data = 4, grad = 0, backward_fn = Bw_None, prev = [], op = Op_Leaf\<rparr>,
      \<lparr>data = 12, grad = 0, backward_fn = Bw_Mul 0 1 2, prev = [0, 1], op = Op_Mul\<rparr>,
      \<lparr>data = 7, grad = 0, backward_fn = Bw_Add 0 1 3, prev = [0, 1], op = Op_Add\<rparr>,
      \<lparr>data = 84, grad = 0, backward_fn = Bw_Mul 2 3 4, prev = [2, 3], op = Op_Mul\<rparr>]"
  by (simp add: diamond_heap_def Value_init_def Value_mul_def Value_add_def set_backward_def)

lemma diamond_order: "backward_order diamond_heap 4 = Some [4, 3, 2, 1, 0]"
  by (simp add: diamond_heap_eq backward_order_def eval_nat_numeral)

lemma diamond_wf: "wf_heap diamond_heap"
  by (simp add: diamond_heap_eq wf_heap_def wf_node_def upt_rec)

lemma diamond_backward: "Value_backward diamond_heap 4 = Some (Inr diamond_after)"
  by (simp add: Value_backward_def diamond_order)
    (simp add: diamond_heap_eq diamond_after_def set_grad_def add_grad_def and_then_def)

lemma sum_list_two:
  assumes "distinct xs" "u \<in> set xs" "w \<in> set xs" "u \<noteq> w"
    and "\<forall>c\<in>set xs. c \<noteq> u \<and> c \<noteq> w \<longrightarrow> f c = (0::real)"
  shows "(\<Sum>c\<leftarrow>xs. f c) = f u + f w"
proof -
  have "(\<Sum>c\<leftarrow>xs. f c) = sum f (set xs)"
    using assms(1) by (rule sum_list_distinct_conv_sum_set)
  also have "\<dots> = sum f {u, w}"
    using assms by (intro sum.mono_neutral_right) auto
  also have "\<dots> = f u + f w" using assms(4) by simp
  finally show ?thesis .
qed

lemma sum_list_one:
  assumes "distinct xs" "u \<in> set xs" and "\<forall>c\<in>set xs. c \<noteq> u \<longrightarrow> f c = (0::real)"
  shows "(\<Sum>c\<leftarrow>xs. f c) = f u"
proof -
  have "(\<Sum>c\<leftarrow>xs. f c) = sum f (set xs)"
    using assms(1) by (rule sum_list_distinct_conv_sum_set)
  also have "\<dots> = sum f {u}"
    using assms by (intro sum.mono_neutral_right) auto
  finally show ?thesis by simp
qed

lemma Value_backward_run:
  assumes "Value_backward h rt = Some (Inr h')"
  shows "\<exists>order. backward_order h rt = Some order \<and> run_all (set_grad h rt 1) order = Inr h'"
  using assms by (cases "backward_order h rt") (auto simp: Value_backward_def)

lemma backward_frame:
  assumes "Value_backward h rt = Some (Inr h')"
  shows "length h \<le> length h' \<and> (\<forall>i<length h. data (h' ! i) = data (h ! i) \<and> prev (h' ! i) = prev (h ! i)
     \<and> op (h' ! i) = op (h ! i) \<and> backward_fn (h' ! i) = backward_fn (h ! i))"
proof -
  from Value_backward_run[OF assms] obtain order where
    "run_all (set_grad h rt 1) order = Inr h'" by blast
  from run_all_frame[OF this] show ?thesis by (simp add: length_set_grad set_grad_nth)
qed

subsection \<open>Claim C1: the order of the calls\<close>

text \<open>
  C1. For every acyclic graph of nodes, \<^verbatim>\<open>backward()\<close> on a root returns from the traversal
  with the list \<open>order\<close> of the nodes whose \<^verbatim>\<open>_backward\<close> it then calls, in the order of the
  calls. The list holds exactly the nodes reachable from the root, each once; and when a
  node of the list is an operand of another node of the list (its consumer), the consumer
  stands before it: the closure of a node runs only after the closures of all its
  consumers.
\<close>

theorem backward_runs_consumers_first:
  assumes "acyclic (operand_edges h)" and "refs_ok h" and "rt < length h"
  shows "\<exists>order. backward_order h rt = Some order
           \<and> Value_backward h rt = Some (run_all (set_grad h rt 1) order)
           \<and> distinct order
           \<and> set order = (operand_edges h)\<^sup>* `` {rt}
           \<and> (\<forall>i<length order. \<forall>j<length order.
                 order ! j \<in> set (prev (h ! (order ! i))) \<longrightarrow> i < j)"
proof -
  from backward_order_sorted[OF assms] obtain rest where
    ord: "backward_order h rt = Some (rt # rest)" and dist: "distinct (rt # rest)"
    and reach: "set (rt # rest) = (operand_edges h)\<^sup>* `` {rt}"
    and sorted: "operands_later h (rt # rest)" by blast
  have "Value_backward h rt = Some (run_all (set_grad h rt 1) (rt # rest))"
    by (simp add: Value_backward_def ord)
  moreover have "\<forall>i<length (rt # rest). \<forall>j<length (rt # rest).
      (rt # rest) ! j \<in> set (prev (h ! ((rt # rest) ! i))) \<longrightarrow> i < j"
    using operands_later_index[OF sorted dist] by blast
  ultimately show ?thesis using ord dist reach by blast
qed

theorem backward_runs_consumers_first_witness:
  "acyclic (operand_edges diamond_heap) \<and> refs_ok diamond_heap \<and> 4 < length diamond_heap
   \<and> backward_order diamond_heap 4 = Some [4, 3, 2, 1, 0]
   \<and> set [4, 3, 2, 1, 0] = (operand_edges diamond_heap)\<^sup>* `` {4}"
proof -
  have a: "acyclic (operand_edges diamond_heap)" using diamond_wf by (rule wf_heap_acyclic)
  have b: "refs_ok diamond_heap" using diamond_wf by (rule wf_heap_refs_ok)
  have c: "4 < length diamond_heap" by (simp add: diamond_heap_eq)
  from backward_runs_consumers_first[OF a b c] diamond_order a b c show ?thesis by auto
qed

subsection \<open>Claim C9: what a backward pass changes\<close>

text \<open>
  C9. A backward pass that returns changes gradients only. Every node of the heap keeps
  its value, its operands, its operation tag and its closure (the pass may allocate new
  nodes: the closure of \<^verbatim>\<open>elu\<close> calls \<^verbatim>\<open>out.exp()\<close>). The gradient of the root is 1 afterwards,
  whatever it was before. The gradient of every other node is its gradient before the
  pass plus the contributions of the closures that ran.
\<close>

theorem backward_changes_gradients_only:
  assumes "wf_heap h" and "rt < length h" and "Value_backward h rt = Some (Inr h')"
  shows "length h \<le> length h'
     \<and> (\<forall>i<length h. data (h' ! i) = data (h ! i) \<and> prev (h' ! i) = prev (h ! i)
           \<and> op (h' ! i) = op (h ! i) \<and> backward_fn (h' ! i) = backward_fn (h ! i))
     \<and> grad (h' ! rt) = 1
     \<and> (\<exists>order. backward_order h rt = Some order
           \<and> (\<forall>x<length h. x \<noteq> rt \<longrightarrow>
                 grad (h' ! x) = grad (h ! x)
                   + (\<Sum>v\<leftarrow>order. contribution h' (backward_fn (h ! v)) x)))"
proof -
  have "\<forall>i<length h. data (h ! i) = data (h ! i) \<and> prev (h ! i) = prev (h ! i)
          \<and> backward_fn (h ! i) = backward_fn (h ! i)" by simp
  from backward_effect[OF assms(1,2) le_refl this assms(3)] backward_frame[OF assms(3)]
  show ?thesis by blast
qed

theorem backward_changes_gradients_only_witness:
  "wf_heap diamond_heap \<and> 4 < length diamond_heap
   \<and> Value_backward diamond_heap 4 = Some (Inr diamond_after)
   \<and> length diamond_heap \<le> length diamond_after
   \<and> grad (diamond_after ! 4) = 1
   \<and> data (diamond_after ! 2) = data (diamond_heap ! 2)"
proof -
  have c: "4 < length diamond_heap" by (simp add: diamond_heap_eq)
  from backward_changes_gradients_only[OF diamond_wf c diamond_backward] diamond_wf c diamond_backward
  show ?thesis by (simp add: diamond_heap_eq)
qed

subsection \<open>Claim C2: a node used twice\<close>

text \<open>
  C2. Let \<open>x\<close> be a node other than the root whose consumers in the pass, the nodes whose
  closures write to \<open>x\<close>, are two different nodes \<open>u\<close> and \<open>w\<close>. After
  the pass the gradient of \<open>x\<close> is what it was before plus the two contributions, each the
  local partial derivative times the final gradient of the consumer: the second
  contribution is added to the first, not written over it.
\<close>

theorem shared_operand_gradient_is_sum:
  assumes "wf_heap h" and "rt < length h" and "Value_backward h rt = Some (Inr h')"
    and "backward_order h rt = Some order"
    and "x < length h" and "x \<noteq> rt"
    and "set (writers h order x) = {u, w}" and "u \<noteq> w"
  shows "grad (h' ! x) = grad (h ! x) + contribution h' (backward_fn (h ! u)) x
                                      + contribution h' (backward_fn (h ! w)) x"
proof -
  have "\<forall>i<length h. data (h ! i) = data (h ! i) \<and> prev (h ! i) = prev (h ! i)
          \<and> backward_fn (h ! i) = backward_fn (h ! i)" by simp
  from backward_effect[OF assms(1,2) le_refl this assms(3)] assms(4,5,6)
  have dist: "distinct order"
    and acc: "grad (h' ! x) = grad (h ! x) + (\<Sum>v\<leftarrow>order. contribution h' (backward_fn (h ! v)) x)"
    by auto
  from assms(7) have u: "u \<in> set order" and w: "w \<in> set order"
    by (auto simp: writers_def)
  have "\<forall>c\<in>set order. c \<noteq> u \<and> c \<noteq> w \<longrightarrow> contribution h' (backward_fn (h ! c)) x = 0"
  proof (intro ballI impI)
    fix c assume c: "c \<in> set order" "c \<noteq> u \<and> c \<noteq> w"
    with assms(7) have "c \<notin> set (writers h order x)" by simp
    with c(1) have "x \<notin> set (closure_targets (backward_fn (h ! c)))" by (simp add: writers_def)
    then show "contribution h' (backward_fn (h ! c)) x = 0" by (rule contribution_zero)
  qed
  from sum_list_two[OF dist u w assms(8) this] acc show ?thesis by simp
qed

theorem shared_operand_gradient_is_sum_witness:
  "wf_heap diamond_heap \<and> 4 < length diamond_heap
   \<and> Value_backward diamond_heap 4 = Some (Inr diamond_after)
   \<and> backward_order diamond_heap 4 = Some [4, 3, 2, 1, 0]
   \<and> 0 < length diamond_heap \<and> (0::nat) \<noteq> 4
   \<and> set (writers diamond_heap [4, 3, 2, 1, 0] 0) = {2, 3} \<and> (2::nat) \<noteq> 3
   \<and> grad (diamond_after ! 0) = 0 + 4 * 7 + 1 * 12"
proof -
  have c: "4 < length diamond_heap" "0 < length diamond_heap" by (simp_all add: diamond_heap_eq)
  have o: "set (writers diamond_heap [4, 3, 2, 1, 0] 0) = {2, 3}"
    by (auto simp: writers_def diamond_heap_eq)
  have "grad (diamond_after ! 0) = grad (diamond_heap ! 0)
          + contribution diamond_after (backward_fn (diamond_heap ! 2)) 0
          + contribution diamond_after (backward_fn (diamond_heap ! 3)) 0"
    by (rule shared_operand_gradient_is_sum[OF diamond_wf c(1) diamond_backward diamond_order c(2) _ o])
      simp_all
  then have "grad (diamond_after ! 0) = 0 + 4 * 7 + 1 * 12"
    by (simp add: diamond_heap_eq diamond_after_def)
  with diamond_wf c diamond_backward diamond_order o show ?thesis by simp
qed

lemma chain_heap_eq:
  "chain_heap =
     [\<lparr>data = 2, grad = 0, backward_fn = Bw_None, prev = [], op = Op_Leaf\<rparr>,
      \<lparr>data = 2, grad = 0, backward_fn = Bw_None, prev = [], op = Op_Leaf\<rparr>,
      \<lparr>data = 4, grad = 0, backward_fn = Bw_Mul 0 1 2, prev = [0, 1], op = Op_Mul\<rparr>,
      \<lparr>data = 3, grad = 0, backward_fn = Bw_None, prev = [], op = Op_Leaf\<rparr>,
      \<lparr>data = 12, grad = 0, backward_fn = Bw_Mul 2 3 4, prev = [2, 3], op = Op_Mul\<rparr>]"
  by (simp add: chain_heap_def Value_init_def Value_mul_def set_backward_def)

lemma chain_order: "backward_order chain_heap 4 = Some [4, 3, 2, 1, 0]"
  by (simp add: chain_heap_eq backward_order_def eval_nat_numeral)

lemma chain_once_order: "backward_order chain_once 4 = Some [4, 3, 2, 1, 0]"
  by (simp add: chain_once_def backward_order_def eval_nat_numeral)

lemma chain_wf: "wf_heap chain_heap"
  by (simp add: chain_heap_eq wf_heap_def wf_node_def upt_rec)

lemma chain_backward_once: "Value_backward chain_heap 4 = Some (Inr chain_once)"
  by (simp add: Value_backward_def chain_order)
    (simp add: chain_heap_eq chain_once_def set_grad_def add_grad_def and_then_def)

lemma chain_backward_twice: "Value_backward chain_once 4 = Some (Inr chain_twice)"
  by (simp add: Value_backward_def chain_once_order)
    (simp add: chain_once_def chain_twice_def set_grad_def add_grad_def and_then_def)

subsection \<open>Claim C6: a second backward pass\<close>

text \<open>
  C6 says that a second \<^verbatim>\<open>backward()\<close> with no zeroing in between leaves every leaf with
  twice the gradient it had after the first. It fails on a chain of two multiplications:
  the intermediate node keeps its gradient as well, so the second pass pushes twice as
  much through it, and the leaf \<open>a\<close> goes from 6 to 18.
\<close>

theorem second_backward_counterexample:
  "Value_backward chain_heap 4 = Some (Inr chain_once)
   \<and> Value_backward chain_once 4 = Some (Inr chain_twice)
   \<and> prev (chain_heap ! 0) = [] \<and> grad (chain_heap ! 0) = 0
   \<and> grad (chain_once ! 0) = 6 \<and> grad (chain_twice ! 0) = 18
   \<and> grad (chain_twice ! 0) \<noteq> 2 * grad (chain_once ! 0)"
  using chain_backward_once chain_backward_twice
  by (simp add: chain_heap_eq chain_once_def chain_twice_def)

text \<open>
  C6, amended. A second \<^verbatim>\<open>backward()\<close> doubles the gradient of every node that had
  gradient zero before the first call and whose only consumer in the pass is the root
  itself.
\<close>

theorem second_backward_doubles_operands_of_root:
  assumes "wf_heap h" and "rt < length h"
    and "Value_backward h rt = Some (Inr h1)" and "Value_backward h1 rt = Some (Inr h2)"
    and "backward_order h rt = Some order"
    and "x < length h" and "x \<noteq> rt" and "grad (h ! x) = 0"
    and "set (writers h order x) \<subseteq> {rt}"
  shows "grad (h2 ! x) = 2 * grad (h1 ! x)"
proof -
  let ?c = "backward_fn (h ! rt)"
  have refl: "\<forall>i<length h. data (h ! i) = data (h ! i) \<and> prev (h ! i) = prev (h ! i)
          \<and> backward_fn (h ! i) = backward_fn (h ! i)" by simp
  from backward_frame[OF assms(3)] have len: "length h \<le> length h1"
    and same: "\<forall>i<length h. data (h1 ! i) = data (h ! i) \<and> prev (h1 ! i) = prev (h ! i)
                 \<and> backward_fn (h1 ! i) = backward_fn (h ! i)" by auto
  from backward_frame[OF assms(4)] len have data2: "\<forall>i<length h. data (h2 ! i) = data (h1 ! i)" by auto
  from backward_effect[OF assms(1,2) le_refl refl assms(3)] assms(5,6,7,8)
  have dist: "distinct order" and rt_in: "rt \<in> set order" and g1: "grad (h1 ! rt) = 1"
    and acc1: "grad (h1 ! x) = (\<Sum>v\<leftarrow>order. contribution h1 (backward_fn (h ! v)) x)"
    by auto
  from backward_effect[OF assms(1,2) len same assms(4)] assms(5,6,7)
  have g2: "grad (h2 ! rt) = 1"
    and acc2: "grad (h2 ! x) = grad (h1 ! x) + (\<Sum>v\<leftarrow>order. contribution h2 (backward_fn (h ! v)) x)"
    by auto
  have zero: "\<forall>c\<in>set order. c \<noteq> rt \<longrightarrow> contribution g (backward_fn (h ! c)) x = 0" for g
  proof (intro ballI impI)
    fix c assume c: "c \<in> set order" "c \<noteq> rt"
    with assms(9) have "c \<notin> set (writers h order x)" by auto
    with c(1) have "x \<notin> set (closure_targets (backward_fn (h ! c)))" by (simp add: writers_def)
    then show "contribution g (backward_fn (h ! c)) x = 0" by (rule contribution_zero)
  qed
  from sum_list_one[OF dist rt_in zero] acc1 have a1: "grad (h1 ! x) = contribution h1 ?c x" by simp
  from sum_list_one[OF dist rt_in zero] acc2
  have a2: "grad (h2 ! x) = grad (h1 ! x) + contribution h2 ?c x" by simp
  have "contribution h2 ?c x = contribution h1 ?c x"
  proof (rule contribution_cong[where n = "length h"])
    show "\<forall>i<length h. data (h2 ! i) = data (h1 ! i)" by fact
    show "\<forall>t\<in>set (closure_targets ?c). t < length h"
      using wf_node_targets[OF assms(1,2)] assms(2) by fastforce
    show "\<forall>out. closure_out ?c = Some out \<longrightarrow> out < length h \<and> grad (h2 ! out) = grad (h1 ! out)"
      using wf_heap_node[OF assms(1,2)] assms(2) g1 g2 by (auto simp: wf_node_def)
  qed
  with a1 a2 show ?thesis by simp
qed

theorem second_backward_doubles_operands_of_root_witness:
  "wf_heap chain_heap \<and> 4 < length chain_heap
   \<and> Value_backward chain_heap 4 = Some (Inr chain_once)
   \<and> Value_backward chain_once 4 = Some (Inr chain_twice)
   \<and> backward_order chain_heap 4 = Some [4, 3, 2, 1, 0]
   \<and> 3 < length chain_heap \<and> (3::nat) \<noteq> 4 \<and> grad (chain_heap ! 3) = 0
   \<and> set (writers chain_heap [4, 3, 2, 1, 0] 3) \<subseteq> {4}
   \<and> grad (chain_twice ! 3) = 2 * grad (chain_once ! 3)"
proof -
  have c: "4 < length chain_heap" "3 < length chain_heap" "grad (chain_heap ! 3) = 0"
    by (simp_all add: chain_heap_eq)
  have o: "set (writers chain_heap [4, 3, 2, 1, 0] 3) \<subseteq> {4}"
    by (auto simp: writers_def chain_heap_eq)
  have "grad (chain_twice ! 3) = 2 * grad (chain_once ! 3)"
    by (rule second_backward_doubles_operands_of_root[OF chain_wf c(1) chain_backward_once
          chain_backward_twice chain_order c(2) _ c(3) o]) simp
  with chain_wf c chain_backward_once chain_backward_twice chain_order o show ?thesis by simp
qed

lemma overflow_bound_gt_1: "1 < overflow_bound"
  by (simp add: overflow_bound_def)

lemma py_exp_nonpos: "x \<le> 0 \<Longrightarrow> py_exp x = Inr (exp x)"
proof -
  assume "x \<le> 0"
  then have "exp x \<le> 1" by simp
  also note overflow_bound_gt_1
  finally have "exp x < overflow_bound" .
  then show ?thesis by (simp add: py_exp_def)
qed

lemma and_then_Inl: "and_then m f = Inl e \<longleftrightarrow> m = Inl e \<or> (\<exists>x. m = Inr x \<and> f x = Inl e)"
  by (cases m) (simp_all add: and_then_def)

lemma py_pow_raises: "py_pow v w = Inl (Raises e) \<Longrightarrow>
   (e = ZeroDivisionError \<and> v = 0 \<and> w < 0) \<or> (e = OverflowError \<and> v \<noteq> 0)"
  by (simp add: py_pow_def Let_def split: if_split_asm)

lemma pow_value_pos: "0 < v \<Longrightarrow> pow_value v w = v powr w"
  by (simp add: pow_value_def)

lemma py_log_pos: "0 < x \<Longrightarrow> py_log x = Inr (ln x)"
  by (simp add: py_log_def)

lemma half_heap_eq:
  "half_heap =
     [\<lparr>data = 1 / 2, grad = 0, backward_fn = Bw_None, prev = [], op = Op_Leaf\<rparr>,
      \<lparr>data = - 1023, grad = 0, backward_fn = Bw_None, prev = [], op = Op_Leaf\<rparr>]"
  by (simp add: half_heap_def Value_init_def)

lemma py_pow_half_1023: "py_pow (1 / 2) (- 1023) = Inr (2 ^ 1023)"
proof -
  have "(1 / 2 :: real) powr (- 1023) = 2 ^ 1023"
    by (simp add: powr_neg_numeral power_one_over)
  then show ?thesis by (simp add: py_pow_def overflow_bound_def)
qed

lemma py_pow_half_1024: "py_pow (1 / 2) (- 1024) = Inl (Raises OverflowError)"
proof -
  have "(1 / 2 :: real) powr (- 1024) = 2 ^ 1024"
    by (simp add: powr_neg_numeral power_one_over)
  then show ?thesis by (simp add: py_pow_def overflow_bound_def)
qed

lemma half_pow: "Value_pow half_heap 0 (Ref 1) = Inr (half_pow_heap, 2)"
  by (simp add: Value_pow_def half_heap_eq py_pow_half_1023 and_then_def Value_init_def
      set_backward_def half_pow_heap_def)

lemma half_pow_order: "backward_order half_pow_heap 2 = Some [2, 1, 0]"
  by (simp add: half_pow_heap_def backward_order_def eval_nat_numeral)

subsection \<open>Claim C7: the backward step of the power\<close>

text \<open>
  C7 says that the backward step of \<^verbatim>\<open>pow(a, b)\<close> never raises for finite inputs. It does:
  for \<^verbatim>\<open>a = 0.5\<close> and \<^verbatim>\<open>b = -1023.0\<close> the forward value \<open>2^1023\<close> is a float, and the step
  then computes \<^verbatim>\<open>a ** (b - 1)\<close>, which is \<open>2^1024\<close>: \<^verbatim>\<open>OverflowError\<close>.
\<close>

theorem pow_backward_counterexample:
  "Value_pow half_heap 0 (Ref 1) = Inr (half_pow_heap, 2)
   \<and> Value_backward half_pow_heap 2 = Some (Inl (Raises OverflowError))"
proof -
  have "Value_backward half_pow_heap 2 = Some (Inl (Raises OverflowError))"
    by (simp add: Value_backward_def half_pow_order)
      (simp add: half_pow_heap_def set_grad_def and_then_def py_pow_half_1024)
  with half_pow show ?thesis by simp
qed

text \<open>
  C7, amended. The backward step of \<^verbatim>\<open>pow(a, b)\<close> adds \<open>da\<close> times the output gradient to
  the gradient of the base and \<open>db\<close> times the output gradient to that of the exponent,
  where \<open>da = b.value * a.value ** (b.value - 1)\<close> when \<open>a.value\<close> is not zero and 0
  otherwise, and \<open>db = a.value ** b.value * ln(a.value)\<close> when \<open>a.value\<close> is positive and 0
  otherwise. No logarithm is taken of a non-positive base and nothing is divided by
  zero: the only exception the step can raise is \<^verbatim>\<open>OverflowError\<close>, from \<^verbatim>\<open>**\<close>; with a zero
  base it raises nothing.
\<close>

theorem pow_backward_step:
  assumes "s < length h" and "t < length h" and "out < length h" and "s \<noteq> out" and "t \<noteq> out"
  shows "(\<forall>e. run_closure h (Bw_Pow s t out) = Inl (Raises e) \<longrightarrow> e = OverflowError)
     \<and> (data (h ! s) = 0 \<longrightarrow> (\<exists>h'. run_closure h (Bw_Pow s t out) = Inr h'))
     \<and> (\<forall>h'. run_closure h (Bw_Pow s t out) = Inr h' \<longrightarrow>
          (\<forall>x<length h. grad (h' ! x) = grad (h ! x)
             + (if x = s then (if data (h ! s) \<noteq> 0
                               then data (h ! t) * pow_value (data (h ! s)) (data (h ! t) - 1)
                               else 0) * grad (h ! out) else 0)
             + (if x = t then (if data (h ! s) > 0
                               then pow_value (data (h ! s)) (data (h ! t)) * ln (data (h ! s))
                               else 0) * grad (h ! out) else 0)))"
proof (intro conjI allI impI)
  fix e assume "run_closure h (Bw_Pow s t out) = Inl (Raises e)"
  then show "e = OverflowError"
    by (auto simp: Let_def and_then_Inl py_log_def split: if_split_asm dest!: py_pow_raises)
next
  assume "data (h ! s) = 0"
  then show "\<exists>h'. run_closure h (Bw_Pow s t out) = Inr h'"
    by (simp add: Let_def and_then_def)
next
  fix h' x assume run: "run_closure h (Bw_Pow s t out) = Inr h'" and x: "x < length h"
  have "grad (h' ! x) = grad (h ! x) + contribution h (Bw_Pow s t out) x"
    using run _ _ x by (rule run_closure_grad) (use assms in auto)
  then show "grad (h' ! x) = grad (h ! x)
             + (if x = s then (if data (h ! s) \<noteq> 0
                               then data (h ! t) * pow_value (data (h ! s)) (data (h ! t) - 1)
                               else 0) * grad (h ! out) else 0)
             + (if x = t then (if data (h ! s) > 0
                               then pow_value (data (h ! s)) (data (h ! t)) * ln (data (h ! s))
                               else 0) * grad (h ! out) else 0)"
    by simp
qed


theorem pow_backward_step_witness:
  "0 < length cube_heap \<and> 1 < length cube_heap \<and> 2 < length cube_heap \<and> (0::nat) \<noteq> 2 \<and> (1::nat) \<noteq> 2
   \<and> run_closure cube_heap (Bw_Pow 0 1 2) = Inr (add_grad (add_grad cube_heap 0 12) 1 (8 * ln 2))
   \<and> grad (add_grad (add_grad cube_heap 0 12) 1 (8 * ln 2) ! 0) = 0 + 3 * 2 ^ 2 * 1"
proof -
  have l: "0 < length cube_heap" "1 < length cube_heap" "2 < length cube_heap"
    by (simp_all add: cube_heap_def)
  have p: "py_pow 2 2 = Inr 4" "py_pow 2 3 = Inr 8"
    by (simp_all add: py_pow_def overflow_bound_def)
  have run: "run_closure cube_heap (Bw_Pow 0 1 2) = Inr (add_grad (add_grad cube_heap 0 12) 1 (8 * ln 2))"
    by (simp add: cube_heap_def and_then_def p py_log_def add_grad_def)
  have v: "pow_value 2 2 = 4" by (simp add: pow_value_def)
  have ne: "(0::nat) \<noteq> 2" "(1::nat) \<noteq> 2" by simp_all
  note step = pow_backward_step[OF l(1,2,3) ne, THEN conjunct2, THEN conjunct2, rule_format, OF run l(1)]
  then have "grad (add_grad (add_grad cube_heap 0 12) 1 (8 * ln 2) ! 0) = grad (cube_heap ! 0)
      + (if data (cube_heap ! 0) \<noteq> 0
         then data (cube_heap ! 1) * pow_value (data (cube_heap ! 0)) (data (cube_heap ! 1) - 1)
         else 0) * grad (cube_heap ! 2)"
    by simp
  then have "grad (add_grad (add_grad cube_heap 0 12) 1 (8 * ln 2) ! 0) = 0 + 3 * 2 ^ 2 * 1"
    by (simp add: cube_heap_def v)
  with l run show ?thesis by simp
qed

lemma Value_exp_eq:
  "overflow_bound \<le> data (h ! a) \<or> exp (data (h ! a)) < overflow_bound \<Longrightarrow>
     Value_exp h a = Inr (h @ [\<lparr>data = exp (data (h ! a)), grad = 0, backward_fn = Bw_Exp a (length h),
                                 prev = [a], op = Op_Exp\<rparr>], length h)"
  by (auto simp add: Value_exp_def py_exp_def and_then_def Value_init_def set_backward_def)

lemma Value_exp_raises:
  "data (h ! a) < overflow_bound \<Longrightarrow> overflow_bound \<le> exp (data (h ! a)) \<Longrightarrow>
     Value_exp h a = Inl (Raises OverflowError)"
  by (simp add: Value_exp_def py_exp_def and_then_def)

lemma exp_nonpos_in_range: "x \<le> 0 \<Longrightarrow> exp x < overflow_bound"
proof -
  assume "x \<le> 0"
  then have "exp x \<le> 1" by simp
  also note overflow_bound_gt_1
  finally show ?thesis .
qed

lemma Value_elu_eq:
  "Value_elu h a alpha =
     (if data (h ! a) < 0
      then Inr (h @ [\<lparr>data = exp (data (h ! a)), grad = 0, backward_fn = Bw_Exp a (length h),
                       prev = [a], op = Op_Exp\<rparr>,
                     \<lparr>data = alpha * (exp (data (h ! a)) - 1), grad = 0,
                       backward_fn = Bw_ELU alpha a (Suc (length h)), prev = [a], op = Op_ELU alpha\<rparr>],
                Suc (length h))
      else Inr (h @ [\<lparr>data = data (h ! a), grad = 0, backward_fn = Bw_ELU alpha a (length h),
                       prev = [a], op = Op_ELU alpha\<rparr>], length h))"
proof (cases "data (h ! a) < 0")
  case True
  then have "exp (data (h ! a)) < overflow_bound" by (intro exp_nonpos_in_range) simp
  from Value_exp_eq[OF disjI2[OF this]] True show ?thesis
    by (simp add: Value_elu_def and_then_def Value_init_def set_backward_def nth_append)
next
  case False
  then show ?thesis
    by (simp add: Value_elu_def and_then_def Value_init_def set_backward_def)
qed

subsection \<open>Passes that return\<close>

text \<open>Whether a closure raises depends on the values of the nodes it reads, not on their
  gradients: a backward pass returns exactly when the closure of every node it reaches
  returns.\<close>

lemma run_closure_raises_cong:
  assumes "\<forall>i<n. data (g' ! i) = data (g ! i)"
    and "\<forall>t\<in>set (closure_targets c). t < n"
    and "\<forall>out. closure_out c = Some out \<longrightarrow> out < n"
  shows "run_closure g' c = Inl e \<longleftrightarrow> run_closure g c = Inl e"
proof (cases c)
  case (Bw_Div s other out)
  show ?thesis
  proof (cases other)
    case (Ref r)
    with assms Bw_Div have "data (g' ! r) = data (g ! r)" by simp
    with Bw_Div Ref show ?thesis
      by (simp add: and_then_Inl and_then_Inr py_truediv_Inr py_truediv_def Let_def add_grad_frame)
  next
    case (Raw y)
    with Bw_Div show ?thesis by simp
  qed
next
  case (Bw_Pow s t out)
  with assms have "data (g' ! s) = data (g ! s)" "data (g' ! t) = data (g ! t)" by simp_all
  with Bw_Pow show ?thesis by (simp add: and_then_Inl Let_def)
next
  case (Bw_Tanh s out)
  with assms have "data (g' ! out) = data (g ! out)" by simp
  with Bw_Tanh show ?thesis by (simp add: and_then_Inl)
next
  case (Bw_ELU alpha s out)
  with assms have "data (g' ! s) = data (g ! s)" "data (g' ! out) = data (g ! out)" by simp_all
  with Bw_ELU show ?thesis
    by (simp add: and_then_Inl Value_exp_def Value_init_def split_def)
qed (simp_all add: Let_def)

lemma Inr_iff_no_Inl: "(\<exists>k. x = Inr k) \<longleftrightarrow> (\<forall>e. x \<noteq> Inl e)"
  by (cases x) auto

lemma run_closure_returns_cong:
  assumes "\<forall>i<n. data (g' ! i) = data (g ! i)"
    and "\<forall>t\<in>set (closure_targets c). t < n"
    and "\<forall>out. closure_out c = Some out \<longrightarrow> out < n"
  shows "(\<exists>k. run_closure g' c = Inr k) \<longleftrightarrow> (\<exists>k. run_closure g c = Inr k)"
  unfolding Inr_iff_no_Inl using run_closure_raises_cong[OF assms] by simp

lemma run_all_returns:
  assumes "\<forall>v\<in>set vs. v < n \<and> (\<exists>k. run_closure h (backward_fn (h ! v)) = Inr k)
             \<and> (\<forall>t\<in>set (closure_targets (backward_fn (h ! v))). t < n)
             \<and> (\<forall>out. closure_out (backward_fn (h ! v)) = Some out \<longrightarrow> out < n)"
    and "n \<le> length g"
    and "\<forall>i<n. data (g ! i) = data (h ! i) \<and> backward_fn (g ! i) = backward_fn (h ! i)"
  shows "\<exists>k. run_all g vs = Inr k"
  using assms
proof (induction vs arbitrary: g)
  case Nil
  then show ?case by simp
next
  case (Cons v vs)
  let ?c = "backward_fn (h ! v)"
  from Cons.prems(1) have v: "v < n" "\<exists>k. run_closure h ?c = Inr k"
    "\<forall>t\<in>set (closure_targets ?c). t < n" "\<forall>out. closure_out ?c = Some out \<longrightarrow> out < n"
    by auto
  have bf: "backward_fn (g ! v) = ?c" using Cons.prems(3) v(1) by simp
  have "\<forall>i<n. data (g ! i) = data (h ! i)" using Cons.prems(3) by simp
  from run_closure_returns_cong[OF this v(3,4)] v(2)
  obtain g1 where g1: "run_closure g ?c = Inr g1" by blast
  from run_closure_frame[OF g1] Cons.prems(2,3)
  have 1: "n \<le> length g1"
    and 2: "\<forall>i<n. data (g1 ! i) = data (h ! i) \<and> backward_fn (g1 ! i) = backward_fn (h ! i)"
    by auto
  from Cons.prems(1) have "\<forall>v\<in>set vs. v < n \<and> (\<exists>k. run_closure h (backward_fn (h ! v)) = Inr k)
             \<and> (\<forall>t\<in>set (closure_targets (backward_fn (h ! v))). t < n)
             \<and> (\<forall>out. closure_out (backward_fn (h ! v)) = Some out \<longrightarrow> out < n)" by simp
  from Cons.IH[OF this 1 2] obtain k where "run_all g1 vs = Inr k" by blast
  with g1 bf show ?case by (simp add: and_then_def)
qed

lemma run_all_closures_return:
  assumes "run_all g vs = Inr k"
    and "\<forall>v\<in>set vs. v < n
             \<and> (\<forall>t\<in>set (closure_targets (backward_fn (h ! v))). t < n)
             \<and> (\<forall>out. closure_out (backward_fn (h ! v)) = Some out \<longrightarrow> out < n)"
    and "n \<le> length g"
    and "\<forall>i<n. data (g ! i) = data (h ! i) \<and> backward_fn (g ! i) = backward_fn (h ! i)"
  shows "\<forall>v\<in>set vs. \<exists>k. run_closure h (backward_fn (h ! v)) = Inr k"
  using assms
proof (induction vs arbitrary: g)
  case Nil
  then show ?case by simp
next
  case (Cons v vs)
  let ?c = "backward_fn (h ! v)"
  from Cons.prems(2) have v: "v < n"
    "\<forall>t\<in>set (closure_targets ?c). t < n" "\<forall>out. closure_out ?c = Some out \<longrightarrow> out < n"
    by auto
  have bf: "backward_fn (g ! v) = ?c" using Cons.prems(4) v(1) by simp
  from Cons.prems(1) bf obtain g1 where
    g1: "run_closure g ?c = Inr g1" and rest: "run_all g1 vs = Inr k"
    by (auto simp: and_then_Inr)
  have "\<forall>i<n. data (g ! i) = data (h ! i)" using Cons.prems(4) by simp
  from run_closure_returns_cong[OF this v(2,3)] g1
  have here: "\<exists>k. run_closure h ?c = Inr k" by blast
  from run_closure_frame[OF g1] Cons.prems(3,4)
  have 1: "n \<le> length g1"
    and 2: "\<forall>i<n. data (g1 ! i) = data (h ! i) \<and> backward_fn (g1 ! i) = backward_fn (h ! i)"
    by auto
  from Cons.prems(2) have "\<forall>v\<in>set vs. v < n
             \<and> (\<forall>t\<in>set (closure_targets (backward_fn (h ! v))). t < n)
             \<and> (\<forall>out. closure_out (backward_fn (h ! v)) = Some out \<longrightarrow> out < n)" by simp
  from Cons.IH[OF rest this 1 2] here show ?case by simp
qed

lemma backward_returns_iff:
  assumes wf: "wf_heap h" and rt: "rt < length h"
  shows "(\<exists>k. Value_backward h rt = Some (Inr k)) \<longleftrightarrow>
         (\<forall>v. (rt, v) \<in> (operand_edges h)\<^sup>* \<longrightarrow>
              (\<exists>k. run_closure h (backward_fn (h ! v)) = Inr k))"
proof -
  have ok: "refs_ok h" using wf by (rule wf_heap_refs_ok)
  have ac: "acyclic (operand_edges h)" using wf by (rule wf_heap_acyclic)
  from backward_order_sorted[OF ac ok rt] obtain rest where
    ord: "backward_order h rt = Some (rt # rest)"
    and reach: "set (rt # rest) = (operand_edges h)\<^sup>* `` {rt}" by blast
  let ?order = "rt # rest"
  let ?g = "set_grad h rt 1"
  have vb: "Value_backward h rt = Some (run_all ?g ?order)"
    by (simp add: Value_backward_def ord)
  have nodes: "\<forall>v\<in>set ?order. v < length h
             \<and> (\<forall>t\<in>set (closure_targets (backward_fn (h ! v))). t < length h)
             \<and> (\<forall>out. closure_out (backward_fn (h ! v)) = Some out \<longrightarrow> out < length h)"
  proof
    fix v assume "v \<in> set ?order"
    with reach have "(rt, v) \<in> (operand_edges h)\<^sup>*" by auto
    then have vl: "v < length h" using ok rt by (rule reachable_in_heap)
    have t: "\<forall>t\<in>set (closure_targets (backward_fn (h ! v))). t < length h"
      using wf_node_targets[OF wf vl] vl by fastforce
    have o: "\<forall>out. closure_out (backward_fn (h ! v)) = Some out \<longrightarrow> out < length h"
      using wf_heap_node[OF wf vl] vl by (auto simp: wf_node_def)
    from vl t o show "v < length h
             \<and> (\<forall>t\<in>set (closure_targets (backward_fn (h ! v))). t < length h)
             \<and> (\<forall>out. closure_out (backward_fn (h ! v)) = Some out \<longrightarrow> out < length h)"
      by blast
  qed
  have len: "length h \<le> length ?g" by (simp add: length_set_grad)
  have agree: "\<forall>i<length h. data (?g ! i) = data (h ! i) \<and> backward_fn (?g ! i) = backward_fn (h ! i)"
    by (simp add: set_grad_nth)
  show ?thesis
  proof
    assume "\<exists>k. Value_backward h rt = Some (Inr k)"
    with vb obtain k where "run_all ?g ?order = Inr k" by auto
    from run_all_closures_return[OF this nodes len agree] reach
    show "\<forall>v. (rt, v) \<in> (operand_edges h)\<^sup>* \<longrightarrow>
              (\<exists>k. run_closure h (backward_fn (h ! v)) = Inr k)" by blast
  next
    assume all: "\<forall>v. (rt, v) \<in> (operand_edges h)\<^sup>* \<longrightarrow>
              (\<exists>k. run_closure h (backward_fn (h ! v)) = Inr k)"
    have "\<forall>v\<in>set ?order. v < length h \<and> (\<exists>k. run_closure h (backward_fn (h ! v)) = Inr k)
             \<and> (\<forall>t\<in>set (closure_targets (backward_fn (h ! v))). t < length h)
             \<and> (\<forall>out. closure_out (backward_fn (h ! v)) = Some out \<longrightarrow> out < length h)"
    proof
      fix v assume v: "v \<in> set ?order"
      with reach have "(rt, v) \<in> (operand_edges h)\<^sup>*" by auto
      with all have "\<exists>k. run_closure h (backward_fn (h ! v)) = Inr k" by blast
      with nodes v show "v < length h \<and> (\<exists>k. run_closure h (backward_fn (h ! v)) = Inr k)
             \<and> (\<forall>t\<in>set (closure_targets (backward_fn (h ! v))). t < length h)
             \<and> (\<forall>out. closure_out (backward_fn (h ! v)) = Some out \<longrightarrow> out < length h)"
        by blast
    qed
    from run_all_returns[OF this len agree] vb
    show "\<exists>k. Value_backward h rt = Some (Inr k)" by auto
  qed
qed

lemma reach_extend:
  assumes "(v, c) \<in> (operand_edges h1)\<^sup>*" and "refs_ok h" and "v < length h"
    and "length h \<le> length h1" and "\<forall>i<length h. prev (h1 ! i) = prev (h ! i)"
  shows "(v, c) \<in> (operand_edges h)\<^sup>*"
  using assms(1)
proof (induction rule: rtrancl_induct)
  case base
  then show ?case by simp
next
  case (step y z)
  from reachable_in_heap[OF step.IH assms(2,3)] have y: "y < length h" .
  with step.hyps(2) assms(5) have "(y, z) \<in> operand_edges h"
    by (simp add: operand_edges_def)
  with step.IH show ?case by simp
qed

lemma old_closures_return:
  assumes wf: "wf_heap h" and a: "a < length h"
    and ret: "\<exists>k. Value_backward h a = Some (Inr k)"
    and len: "length h \<le> length h1"
    and same: "\<forall>i<length h. h1 ! i = h ! i"
    and reach: "(a, v) \<in> (operand_edges h1)\<^sup>*"
  shows "\<exists>k. run_closure h1 (backward_fn (h1 ! v)) = Inr k"
proof -
  have ok: "refs_ok h" using wf by (rule wf_heap_refs_ok)
  have r: "(a, v) \<in> (operand_edges h)\<^sup>*"
    using reach ok a len same by (intro reach_extend[of a v h1 h]) simp_all
  then have vl: "v < length h" using ok a by (rule reachable_in_heap)
  from ret r have here: "\<exists>k. run_closure h (backward_fn (h ! v)) = Inr k"
    unfolding backward_returns_iff[OF wf a] by blast
  have t: "\<forall>t\<in>set (closure_targets (backward_fn (h ! v))). t < length h"
    using wf_node_targets[OF wf vl] vl by fastforce
  have o: "\<forall>out. closure_out (backward_fn (h ! v)) = Some out \<longrightarrow> out < length h"
    using wf_heap_node[OF wf vl] vl by (auto simp: wf_node_def)
  have d: "\<forall>i<length h. data (h1 ! i) = data (h ! i)" using same by simp
  from run_closure_returns_cong[OF d t o] here same vl show ?thesis by simp
qed

lemma wf_node_append:
  assumes "i < length h" and cs: "\<forall>c\<in>set (prev (h ! i)). c < i"
  shows "wf_node (h @ hs) i = wf_node h i"
proof -
  have i: "(h @ hs) ! i = h ! i" using assms(1) by (simp add: nth_append)
  have "(h @ hs) ! p = h ! p" if "p \<in> set (prev (h ! i))" for p
    using that cs assms(1) by (auto simp: nth_append)
  then show ?thesis unfolding wf_node_def i using cs by auto
qed

lemma wf_heap_snoc:
  assumes "wf_heap h" and "wf_node (h @ [v]) (length h)"
  shows "wf_heap (h @ [v])"
proof -
  have "wf_node (h @ [v]) i" if "i < Suc (length h)" for i
  proof (cases "i < length h")
    case True
    with assms(1) have n: "wf_node h i" by (simp add: wf_heap_node)
    then have "\<forall>c\<in>set (prev (h ! i)). c < i" by (simp add: wf_node_def)
    from wf_node_append[OF True this] n show ?thesis by simp
  next
    case False
    with that have "i = length h" by simp
    with assms(2) show ?thesis by simp
  qed
  then show ?thesis by (simp add: wf_heap_def)
qed

lemma wf_node_new:
  assumes "\<forall>c\<in>set ps. c < length h"
    and "closure_out c = None \<or> closure_out c = Some (length h)"
    and "\<forall>t\<in>set (closure_targets c). t \<in> set ps \<or> (\<exists>p\<in>set ps. t \<in> set (prev (h ! p)))"
  shows "wf_node (h @ [\<lparr>data = d, grad = g, backward_fn = c, prev = ps, op = tag\<rparr>]) (length h)"
proof -
  have "(h @ [v]) ! p = h ! p" if "p \<in> set ps" for p v
    using that assms(1) by (auto simp: nth_append)
  then show ?thesis using assms by (auto simp: wf_node_def)
qed

lemma reach_le: "(x, y) \<in> (operand_edges h)\<^sup>* \<Longrightarrow> wf_heap h \<Longrightarrow> y \<le> x"
proof (induction rule: rtrancl_induct)
  case base
  then show ?case by simp
next
  case (step y z)
  from step.hyps(2) have "y < length h" "z \<in> set (prev (h ! y))" by (auto simp: operand_edges_def)
  with step.prems have "z < y" by (simp add: wf_heap_children)
  with step show ?case by simp
qed

lemma single_operand_reach:
  assumes "prev (h ! r) = [a]" and "(r, v) \<in> (operand_edges h)\<^sup>*"
  shows "v = r \<or> (a, v) \<in> (operand_edges h)\<^sup>*"
  using assms(2)
proof (cases rule: converse_rtranclE)
  case base
  then show ?thesis by simp
next
  case (step y)
  from step(1) assms(1) have "y = a" by (simp add: operand_edges_def)
  with step(2) show ?thesis by simp
qed

lemma unary_root_backward:
  assumes wf: "wf_heap h" and rt: "rt < length h" and pr: "prev (h ! rt) = [a]"
    and run: "Value_backward h rt = Some (Inr h')"
  shows "(\<exists>order. backward_order h rt = Some order \<and> (\<forall>v\<in>set order. v = rt \<or> v \<le> a))
     \<and> grad (h' ! rt) = 1
     \<and> grad (h' ! a) = grad (h ! a) + contribution h' (backward_fn (h ! rt)) a"
proof -
  have a_lt: "a < rt" using wf_heap_children[OF wf rt] pr by simp
  have refl: "\<forall>i<length h. data (h ! i) = data (h ! i) \<and> prev (h ! i) = prev (h ! i)
          \<and> backward_fn (h ! i) = backward_fn (h ! i)" by simp
  from backward_effect[OF wf rt le_refl refl run] obtain rest where
    ord: "backward_order h rt = Some (rt # rest)" and dist: "distinct (rt # rest)"
    and reach: "set (rt # rest) = (operand_edges h)\<^sup>* `` {rt}"
    and g: "grad (h' ! rt) = 1"
    and acc: "\<forall>x<length h. x \<noteq> rt \<longrightarrow> grad (h' ! x) = grad (h ! x)
                  + (\<Sum>v\<leftarrow>rt # rest. contribution h' (backward_fn (h ! v)) x)"
    by blast
  have below: "\<forall>v\<in>set (rt # rest). v = rt \<or> v \<le> a"
  proof
    fix v assume "v \<in> set (rt # rest)"
    with reach have "(rt, v) \<in> (operand_edges h)\<^sup>*" by auto
    from single_operand_reach[OF pr this] show "v = rt \<or> v \<le> a"
      using reach_le[OF _ wf] by blast
  qed
  have zero: "\<forall>c\<in>set (rt # rest). c \<noteq> rt \<longrightarrow> contribution h' (backward_fn (h ! c)) a = 0"
  proof (intro ballI impI)
    fix c assume c: "c \<in> set (rt # rest)" "c \<noteq> rt"
    with below have ca: "c \<le> a" by blast
    with a_lt rt have cl: "c < length h" by simp
    have "a \<notin> set (closure_targets (backward_fn (h ! c)))"
      using wf_node_targets[OF wf cl] ca by fastforce
    then show "contribution h' (backward_fn (h ! c)) a = 0" by (rule contribution_zero)
  qed
  have "rt \<in> set (rt # rest)" by simp
  from sum_list_one[OF dist this zero] acc a_lt rt
  have "grad (h' ! a) = grad (h ! a) + contribution h' (backward_fn (h ! rt)) a" by simp
  with ord below g show ?thesis by blast
qed

lemma Value_mul_Raw:
  "a < length h \<Longrightarrow>
     Value_mul h a (Raw x) =
       (h @ [\<lparr>data = x, grad = 0, backward_fn = Bw_None, prev = [], op = Op_Leaf\<rparr>,
             \<lparr>data = data (h ! a) * x, grad = 0, backward_fn = Bw_Mul a (length h) (Suc (length h)),
               prev = [a, length h], op = Op_Mul\<rparr>], Suc (length h))"
  by (simp add: Value_mul_def Value_init_def set_backward_def nth_append)

lemma wf_heap_unary_chain:
  assumes wf: "wf_heap h" and a: "a < length h"
    and c: "closure_out c = Some (length h + 3)" "closure_targets c = [a]"
  shows "wf_heap (h @ [\<lparr>data = d1, grad = 0, backward_fn = Bw_None, prev = [], op = Op_Leaf\<rparr>,
               \<lparr>data = d2, grad = 0, backward_fn = Bw_Mul a (length h) (Suc (length h)),
                 prev = [a, length h], op = Op_Mul\<rparr>,
               \<lparr>data = d3, grad = 0, backward_fn = Bw_Exp (Suc (length h)) (Suc (Suc (length h))),
                 prev = [Suc (length h)], op = Op_Exp\<rparr>,
               \<lparr>data = d4, grad = 0, backward_fn = c, prev = [a], op = tag\<rparr>])"
proof -
  let ?n1 = "\<lparr>data = d1, grad = 0, backward_fn = Bw_None, prev = [], op = Op_Leaf\<rparr>"
  let ?n2 = "\<lparr>data = d2, grad = 0, backward_fn = Bw_Mul a (length h) (Suc (length h)),
                 prev = [a, length h], op = Op_Mul\<rparr>"
  let ?n3 = "\<lparr>data = d3, grad = 0, backward_fn = Bw_Exp (Suc (length h)) (Suc (Suc (length h))),
                 prev = [Suc (length h)], op = Op_Exp\<rparr>"
  let ?n4 = "\<lparr>data = d4, grad = 0, backward_fn = c, prev = [a], op = tag\<rparr>"
  have 1: "wf_heap (h @ [?n1])"
    using wf by (rule wf_heap_snoc) (rule wf_node_new, simp_all)
  have 2: "wf_heap ((h @ [?n1]) @ [?n2])"
    using 1 by (rule wf_heap_snoc) (rule wf_node_new, use a in \<open>simp_all add: nth_append\<close>)
  have 3: "wf_heap (((h @ [?n1]) @ [?n2]) @ [?n3])"
    using 2 by (rule wf_heap_snoc) (rule wf_node_new, simp_all add: nth_append)
  have 4: "wf_heap ((((h @ [?n1]) @ [?n2]) @ [?n3]) @ [?n4])"
    using 3 by (rule wf_heap_snoc) (rule wf_node_new, use a c in \<open>simp_all add: nth_append\<close>)
  then show ?thesis by simp
qed

lemma single_operand_result:
  assumes wf: "wf_heap h1" and out: "out < length h1" and pr: "prev (h1 ! out) = [a]" and a: "a < n"
  shows "(\<forall>i. n \<le> i \<and> i < out \<longrightarrow> (out, i) \<notin> (operand_edges h1)\<^sup>*)
     \<and> (\<forall>h2. Value_backward h1 out = Some (Inr h2) \<longrightarrow>
          (\<exists>order. backward_order h1 out = Some order \<and> (\<forall>i\<in>set order. i = out \<or> i < n))
          \<and> grad (h2 ! out) = 1 \<and> data (h2 ! out) = data (h1 ! out)
          \<and> grad (h2 ! a) = grad (h1 ! a) + contribution h2 (backward_fn (h1 ! out)) a)"
proof (intro conjI allI impI)
  fix i assume i: "n \<le> i \<and> i < out"
  show "(out, i) \<notin> (operand_edges h1)\<^sup>*"
  proof
    assume "(out, i) \<in> (operand_edges h1)\<^sup>*"
    from single_operand_reach[OF pr this] i have "(a, i) \<in> (operand_edges h1)\<^sup>*" by simp
    from reach_le[OF this wf] a i show False by simp
  qed
next
  fix h2 assume run: "Value_backward h1 out = Some (Inr h2)"
  from unary_root_backward[OF wf out pr run] obtain order where
    o: "backward_order h1 out = Some order" "\<forall>v\<in>set order. v = out \<or> v \<le> a"
    and g: "grad (h2 ! out) = 1"
      "grad (h2 ! a) = grad (h1 ! a) + contribution h2 (backward_fn (h1 ! out)) a" by blast
  from o(2) a have "\<forall>i\<in>set order. i = out \<or> i < n" by fastforce
  with o(1) show "\<exists>order. backward_order h1 out = Some order \<and> (\<forall>i\<in>set order. i = out \<or> i < n)"
    by blast
  show "grad (h2 ! out) = 1" by fact
  show "grad (h2 ! a) = grad (h1 ! a) + contribution h2 (backward_fn (h1 ! out)) a" by fact
  from backward_frame[OF run] out show "data (h2 ! out) = data (h1 ! out)" by simp
qed

lemma one_leaf_eq:
  "one_leaf x = [\<lparr>data = x, grad = 0, backward_fn = Bw_None, prev = [], op = Op_Leaf\<rparr>]"
  by (simp add: one_leaf_def Value_init_def)

lemma operands_reach:
  assumes "(r, v) \<in> (operand_edges h)\<^sup>*"
  shows "v = r \<or> (\<exists>p\<in>set (prev (h ! r)). (p, v) \<in> (operand_edges h)\<^sup>*)"
  using assms
proof (cases rule: converse_rtranclE)
  case base
  then show ?thesis by simp
next
  case (step y)
  from step(1) have "y \<in> set (prev (h ! r))" by (simp add: operand_edges_def)
  with step(2) show ?thesis by blast
qed

lemma only_root_writes:
  assumes wf: "wf_heap h" and rt: "rt < length h" and run: "Value_backward h rt = Some (Inr h')"
    and x: "x < length h" "x \<noteq> rt"
    and only: "\<And>c. (rt, c) \<in> (operand_edges h)\<^sup>* \<Longrightarrow> c \<noteq> rt
                 \<Longrightarrow> x \<notin> set (closure_targets (backward_fn (h ! c)))"
  shows "grad (h' ! x) = grad (h ! x) + contribution h' (backward_fn (h ! rt)) x"
    and "grad (h' ! rt) = 1"
proof -
  have refl: "\<forall>i<length h. data (h ! i) = data (h ! i) \<and> prev (h ! i) = prev (h ! i)
          \<and> backward_fn (h ! i) = backward_fn (h ! i)" by simp
  from backward_effect[OF wf rt le_refl refl run] obtain rest where
    dist: "distinct (rt # rest)"
    and reach: "set (rt # rest) = (operand_edges h)\<^sup>* `` {rt}"
    and g: "grad (h' ! rt) = 1"
    and acc: "\<forall>x<length h. x \<noteq> rt \<longrightarrow> grad (h' ! x) = grad (h ! x)
                  + (\<Sum>v\<leftarrow>rt # rest. contribution h' (backward_fn (h ! v)) x)"
    by blast
  have zero: "\<forall>c\<in>set (rt # rest). c \<noteq> rt \<longrightarrow> contribution h' (backward_fn (h ! c)) x = 0"
  proof (intro ballI impI)
    fix c assume c: "c \<in> set (rt # rest)" "c \<noteq> rt"
    with reach have "(rt, c) \<in> (operand_edges h)\<^sup>*" by auto
    from only[OF this c(2)] show "contribution h' (backward_fn (h ! c)) x = 0"
      by (rule contribution_zero)
  qed
  have "rt \<in> set (rt # rest)" by simp
  from sum_list_one[OF dist this zero] acc x
  show "grad (h' ! x) = grad (h ! x) + contribution h' (backward_fn (h ! rt)) x" by simp
  show "grad (h' ! rt) = 1" by fact
qed

lemma below_not_target:
  assumes "wf_heap h" and "(s, c) \<in> (operand_edges h)\<^sup>*" and "s < length h"
  shows "s \<notin> set (closure_targets (backward_fn (h ! c)))"
proof -
  from reach_le[OF assms(2,1)] have cs: "c \<le> s" .
  with assms(3) have "c < length h" by simp
  from wf_node_targets[OF assms(1) this] cs show ?thesis by fastforce
qed

lemma leaf_reach:
  assumes "prev (h ! l) = []" and "(l, c) \<in> (operand_edges h)\<^sup>*"
  shows "c = l"
  using operands_reach[OF assms(2)] assms(1) by simp

lemma two_leaves_eq:
  "two_leaves x y =
     [\<lparr>data = x, grad = 0, backward_fn = Bw_None, prev = [], op = Op_Leaf\<rparr>,
      \<lparr>data = y, grad = 0, backward_fn = Bw_None, prev = [], op = Op_Leaf\<rparr>]"
  by (simp add: two_leaves_def Value_init_def)

lemma floor_minus_one_real: "\<lfloor>- 1 :: real\<rfloor> = - 1"
  using floor_of_int[of "- 1", where ?'a = real] by simp

lemma floor_minus_two_real: "\<lfloor>- 2 :: real\<rfloor> = - 2"
  using floor_of_int[of "- 2", where ?'a = real] by simp

lemma py_pow_neg1:
  assumes "y \<noteq> 0" and "\<bar>1 / y\<bar> < overflow_bound"
  shows "py_pow y (- 1) = Inr (1 / y)"
proof (cases "y < 0")
  case True
  then have "(- y) powr (- 1) = 1 / (- y)" by (simp add: powr_neg_one)
  with True assms show ?thesis by (simp add: py_pow_def Let_def floor_minus_one_real)
next
  case False
  with assms have "0 < y" by simp
  then have "\<bar>y\<bar> powr (- 1) = 1 / y" by (simp add: powr_neg_one)
  with False assms show ?thesis by (simp add: py_pow_def Let_def)
qed

lemma py_pow_2:
  assumes "y \<noteq> 0" and "y\<^sup>2 < overflow_bound"
  shows "py_pow y 2 = Inr (y\<^sup>2)"
proof -
  have "\<bar>y\<bar> powr 2 = y\<^sup>2" by simp
  with assms show ?thesis by (simp add: py_pow_def Let_def)
qed

lemma py_pow_neg2:
  assumes "y \<noteq> 0" and "1 / y\<^sup>2 < overflow_bound"
  shows "py_pow y (- 2) = Inr (1 / y\<^sup>2)"
proof -
  have "\<bar>y\<bar> powr (- 2) = 1 / y\<^sup>2"
    using assms(1) by (simp add: powr_neg_numeral)
  with assms show ?thesis by (simp add: py_pow_def Let_def floor_minus_two_real)
qed

lemma inverse_in_range:
  assumes "y \<noteq> 0" and "1 / y\<^sup>2 < overflow_bound"
  shows "\<bar>1 / y\<bar> < overflow_bound"
proof (cases "\<bar>1 / y\<bar> \<le> 1")
  case True
  also note overflow_bound_gt_1
  finally show ?thesis .
next
  case False
  then have "1 \<le> \<bar>1 / y\<bar>" by simp
  then have "\<bar>1 / y\<bar> * 1 \<le> \<bar>1 / y\<bar> * \<bar>1 / y\<bar>" by (intro mult_left_mono) simp_all
  also have "\<bar>1 / y\<bar> * \<bar>1 / y\<bar> = 1 / y\<^sup>2" by (simp add: power2_eq_square abs_mult_self_eq)
  finally show ?thesis using assms(2) by simp
qed



lemma ELU_step_grad:
  assumes run: "run_closure g (Bw_ELU alpha a out) = Inr h2" and "a < length g" "out < length g" "a \<noteq> out"
  shows "grad (h2 ! a) = grad (g ! a)
           + (if data (g ! a) < 0 then alpha * exp (data (g ! out)) else 1) * grad (g ! out)"
proof -
  have "grad (h2 ! a) = grad (g ! a) + contribution g (Bw_ELU alpha a out) a"
    using run _ _ assms(2) by (rule run_closure_grad) (use assms in auto)
  then show ?thesis by simp
qed

lemma ELU_step_runs:
  assumes "0 \<le> data (g ! a) \<or> exp (data (g ! out)) < overflow_bound"
  shows "\<exists>h2. run_closure g (Bw_ELU alpha a out) = Inr h2"
proof (cases "data (g ! a) < 0")
  case True
  with assms have "exp (data (g ! out)) < overflow_bound" by simp
  from Value_exp_eq[OF disjI2[OF this]] True show ?thesis by (simp add: and_then_def)
next
  case False
  then show ?thesis by (simp add: and_then_def)
qed

lemma ELU_step_raises:
  assumes "data (g ! a) < 0" and "data (g ! out) < overflow_bound"
    and "overflow_bound \<le> exp (data (g ! out))"
  shows "run_closure g (Bw_ELU alpha a out) = Inl (Raises OverflowError)"
  using assms(1) Value_exp_raises[OF assms(2,3)] by (simp add: and_then_def)

lemma elu_value_in_range:
  assumes "x < 0" and "\<bar>alpha\<bar> < overflow_bound"
  shows "alpha * (exp x - 1) < overflow_bound"
proof -
  have "exp x < 1" using assms(1) by simp
  moreover have "0 < exp x" by simp
  ultimately have "\<bar>exp x - 1\<bar> \<le> 1" by (simp add: abs_if)
  then have "\<bar>alpha\<bar> * \<bar>exp x - 1\<bar> \<le> \<bar>alpha\<bar> * 1" by (intro mult_left_mono) simp_all
  then have "\<bar>alpha * (exp x - 1)\<bar> \<le> \<bar>alpha\<bar>" by (simp add: abs_mult)
  with assms(2) show ?thesis by linarith
qed

lemma exp_832_overflows: "overflow_bound \<le> exp (832 :: real)"
proof -
  have "1 + 1 + (1::real)\<^sup>2 / 2 \<le> exp 1" by (rule exp_lower_Taylor_quadratic) simp
  then have "(5 / 2 :: real) \<le> exp 1" by simp
  then have "(5 / 2 :: real) ^ 4 \<le> exp 1 ^ 4" by (intro power_mono) simp_all
  also have "exp (1::real) ^ 4 = exp (of_nat 4 * 1)" by (rule exp_of_nat_mult[symmetric])
  finally have "(5 / 2 :: real) ^ 4 \<le> exp 4" by simp
  moreover have "(2::real) ^ 5 \<le> (5 / 2) ^ 4" by (simp add: power_divide)
  ultimately have "(2::real) ^ 5 \<le> exp 4" by linarith
  then have "((2::real) ^ 5) ^ 208 \<le> exp 4 ^ 208" by (intro power_mono) simp_all
  also have "exp (4::real) ^ 208 = exp (of_nat 208 * 4)" by (rule exp_of_nat_mult[symmetric])
  also have "\<dots> = exp 832" by simp
  finally have "((2::real) ^ 5) ^ 208 \<le> exp 832" .
  moreover have "((2::real) ^ 5) ^ 208 = 2 ^ 1040" by (simp only: power_mult[symmetric]) simp
  moreover have "(2::real) ^ 1024 \<le> 2 ^ 1040" by (rule power_increasing) simp_all
  moreover have "overflow_bound \<le> 2 ^ 1024" by (simp add: overflow_bound_def)
  ultimately show ?thesis by linarith
qed

lemma elu_heap_value:
  "- 1000 * (exp (- 5 :: real) - 1) < overflow_bound"
  "overflow_bound \<le> exp (- 1000 * (exp (- 5 :: real) - 1))"
proof -
  have "\<bar>- 1000 :: real\<bar> < overflow_bound" by (simp add: overflow_bound_def)
  then show "- 1000 * (exp (- 5 :: real) - 1) < overflow_bound"
    by (intro elu_value_in_range) simp
  have "1 + (5::real) \<le> exp 5" by (rule exp_ge_add_one_self)
  then have "inverse (exp (5::real)) \<le> inverse 6" by (intro le_imp_inverse_le) simp_all
  then have "exp (- 5 :: real) \<le> 1 / 6" by (simp add: exp_minus inverse_eq_divide)
  then have "(832 :: real) \<le> - 1000 * (exp (- 5) - 1)" by simp
  then have "exp (832 :: real) \<le> exp (- 1000 * (exp (- 5) - 1))" by (simp only: exp_le_cancel_iff)
  with exp_832_overflows show "overflow_bound \<le> exp (- 1000 * (exp (- 5 :: real) - 1))" by linarith
qed

lemma elu_heap_forward: "Value_elu (one_leaf (- 5)) 0 (- 1000) = Inr (elu_heap, 2)"
  by (simp add: Value_elu_eq one_leaf_eq elu_heap_def)

lemma elu_heap_order: "backward_order elu_heap 2 = Some [2, 0]"
  by (simp add: elu_heap_def backward_order_def eval_nat_numeral)

subsection \<open>Claim C8: ELU\<close>

text \<open>
  C8 says that the backward step of \<^verbatim>\<open>elu(a, alpha)\<close> adds its term to the gradient of \<open>a\<close> for
  every \<open>a\<close> and \<open>alpha\<close>. On the negative branch the step calls \<^verbatim>\<open>out.exp()\<close>, and for
  \<^verbatim>\<open>a = Value(-5.0)\<close> and \<^verbatim>\<open>alpha = -1000.0\<close> the value of \<open>out\<close> is above 832: \<^verbatim>\<open>math.exp\<close> raises
  \<^verbatim>\<open>OverflowError\<close>, and the backward pass ends there.
\<close>

theorem elu_backward_counterexample:
  "Value_elu (one_leaf (- 5)) 0 (- 1000) = Inr (elu_heap, 2)
   \<and> Value_backward elu_heap 2 = Some (Inl (Raises OverflowError))"
proof -
  let ?g = "set_grad elu_heap 2 1"
  have d: "data (?g ! 0) < 0" "data (?g ! 2) < overflow_bound"
    "overflow_bound \<le> exp (data (?g ! 2))"
    using elu_heap_value by (simp_all add: set_grad_nth elu_heap_def)
  have c: "backward_fn (?g ! 2) = Bw_ELU (- 1000) 0 2"
    by (simp add: set_grad_nth elu_heap_def)
  have "run_closure ?g (backward_fn (?g ! 2)) = Inl (Raises OverflowError)"
    unfolding c using d by (rule ELU_step_raises)
  then have "run_all ?g [2, 0] = Inl (Raises OverflowError)"
    by (simp only: run_all.simps and_then_def sum.case)
  then have "Value_backward elu_heap 2 = Some (Inl (Raises OverflowError))"
    by (simp add: Value_backward_def elu_heap_order)
  with elu_heap_forward show ?thesis by simp
qed

text \<open>
  C8, amended. For every node \<open>a\<close> and every coefficient \<open>alpha\<close> in the float range,
  \<^verbatim>\<open>a.elu(alpha)\<close> returns a new node \<open>out\<close> with the single operand \<open>a\<close> whose value is
  \<open>a.value\<close> when \<open>a.value \<ge> 0\<close> and \<open>alpha * (e^a.value - 1)\<close> otherwise. Its backward
  step, run with \<open>out.grad = g\<close>, returns when \<open>a.value \<ge> 0\<close> or \<open>e^out.value\<close> is in the
  float range, and then it has added \<open>(alpha * e^out.value if a.value < 0 else 1) * g\<close> to the
  gradient of \<open>a\<close>: on the negative branch the exponential is taken of the output value,
  not of the input. When \<open>a.value < 0\<close> and \<open>e^out.value\<close> is beyond the float range, the
  step raises \<^verbatim>\<open>OverflowError\<close>.
\<close>

theorem elu_value_and_backward_step:
  assumes "a < length h" and "\<bar>alpha\<bar> < overflow_bound"
  shows "\<exists>h1 out. Value_elu h a alpha = Inr (h1, out) \<and> a < out \<and> out < length h1
     \<and> data (h1 ! out) = (if 0 \<le> data (h ! a) then data (h ! a)
                           else alpha * (exp (data (h ! a)) - 1))
     \<and> grad (h1 ! out) = 0 \<and> prev (h1 ! out) = [a] \<and> op (h1 ! out) = Op_ELU alpha
     \<and> backward_fn (h1 ! out) = Bw_ELU alpha a out
     \<and> (\<forall>g. (0 \<le> data (h ! a) \<or> exp (data (h1 ! out)) < overflow_bound \<longrightarrow>
               (\<exists>h2. run_closure (set_grad h1 out g) (Bw_ELU alpha a out) = Inr h2
                  \<and> grad (h2 ! a) = grad (h ! a)
                       + (if data (h ! a) < 0 then alpha * exp (data (h1 ! out)) else 1) * g))
           \<and> (data (h ! a) < 0 \<and> overflow_bound \<le> exp (data (h1 ! out)) \<longrightarrow>
               run_closure (set_grad h1 out g) (Bw_ELU alpha a out)
                 = Inl (Raises OverflowError)))"
proof -
  obtain h1 out where elu: "Value_elu h a alpha = Inr (h1, out)"
    by (cases "data (h ! a) < 0") (simp_all add: Value_elu_eq)
  from elu assms(1) have shape: "a < out" "out < length h1" "h1 ! a = h ! a" "length h \<le> out"
    "data (h1 ! out) = (if 0 \<le> data (h ! a) then data (h ! a) else alpha * (exp (data (h ! a)) - 1))"
    "grad (h1 ! out) = 0" "prev (h1 ! out) = [a]" "op (h1 ! out) = Op_ELU alpha"
    "backward_fn (h1 ! out) = Bw_ELU alpha a out"
    by (auto simp: Value_elu_eq nth_append split: if_split_asm)
  let ?g = "\<lambda>g. set_grad h1 out g"
  have st: "data (?g g ! a) = data (h ! a)" "data (?g g ! out) = data (h1 ! out)"
    "grad (?g g ! a) = grad (h ! a)" "grad (?g g ! out) = g" "a < length (?g g)" "out < length (?g g)"
    for g
    using shape(1,2,3) by (simp_all add: set_grad_nth length_set_grad)
  have ne: "a \<noteq> out" using shape(1) by simp
  have step: "(0 \<le> data (h ! a) \<or> exp (data (h1 ! out)) < overflow_bound \<longrightarrow>
               (\<exists>h2. run_closure (?g g) (Bw_ELU alpha a out) = Inr h2
                  \<and> grad (h2 ! a) = grad (h ! a)
                       + (if data (h ! a) < 0 then alpha * exp (data (h1 ! out)) else 1) * g))
           \<and> (data (h ! a) < 0 \<and> overflow_bound \<le> exp (data (h1 ! out)) \<longrightarrow>
               run_closure (?g g) (Bw_ELU alpha a out) = Inl (Raises OverflowError))" for g
  proof (intro conjI impI)
    assume "0 \<le> data (h ! a) \<or> exp (data (h1 ! out)) < overflow_bound"
    then have "0 \<le> data (?g g ! a) \<or> exp (data (?g g ! out)) < overflow_bound"
      by (simp only: st)
    from ELU_step_runs[OF this] obtain h2 where
      run: "run_closure (?g g) (Bw_ELU alpha a out) = Inr h2" by blast
    from ELU_step_grad[OF run st(5,6) ne]
    have "grad (h2 ! a) = grad (h ! a)
            + (if data (h ! a) < 0 then alpha * exp (data (h1 ! out)) else 1) * g"
      by (simp only: st)
    with run show "\<exists>h2. run_closure (?g g) (Bw_ELU alpha a out) = Inr h2
                  \<and> grad (h2 ! a) = grad (h ! a)
                       + (if data (h ! a) < 0 then alpha * exp (data (h1 ! out)) else 1) * g"
      by blast
  next
    assume neg: "data (h ! a) < 0 \<and> overflow_bound \<le> exp (data (h1 ! out))"
    then have "data (h1 ! out) < overflow_bound"
      using shape(5) elu_value_in_range[OF _ assms(2), of "data (h ! a)"] by simp
    with neg have "data (?g g ! a) < 0" "data (?g g ! out) < overflow_bound"
      "overflow_bound \<le> exp (data (?g g ! out))" by (simp_all only: st)
    then show "run_closure (?g g) (Bw_ELU alpha a out) = Inl (Raises OverflowError)"
      by (rule ELU_step_raises)
  qed
  from elu shape step show ?thesis by blast
qed

theorem elu_value_and_backward_step_witness:
  "0 < length minus_one_heap \<and> \<bar>2 :: real\<bar> < overflow_bound
   \<and> (\<exists>h1 out. Value_elu minus_one_heap 0 2 = Inr (h1, out)
         \<and> data (h1 ! out) = 2 * (exp (- 1) - 1) \<and> prev (h1 ! out) = [0]
         \<and> (\<exists>h2. run_closure (set_grad h1 out 1) (Bw_ELU 2 0 out) = Inr h2
               \<and> grad (h2 ! 0) = 0 + 2 * exp (2 * (exp (- 1) - 1)) * 1))"
proof -
  have l: "0 < length minus_one_heap" and d: "data (minus_one_heap ! 0) = - 1"
    and g0: "grad (minus_one_heap ! 0) = 0"
    by (simp_all add: minus_one_heap_def Value_init_def)
  have al: "\<bar>2 :: real\<bar> < overflow_bound" by (simp add: overflow_bound_def)
  from elu_value_and_backward_step[OF l al] obtain h1 out where
    f: "Value_elu minus_one_heap 0 2 = Inr (h1, out)"
    and v: "data (h1 ! out) = (if 0 \<le> data (minus_one_heap ! 0) then data (minus_one_heap ! 0)
                           else 2 * (exp (data (minus_one_heap ! 0)) - 1))"
    and p: "prev (h1 ! out) = [0]"
    and s: "\<forall>g. (0 \<le> data (minus_one_heap ! 0) \<or> exp (data (h1 ! out)) < overflow_bound \<longrightarrow>
               (\<exists>h2. run_closure (set_grad h1 out g) (Bw_ELU 2 0 out) = Inr h2
                  \<and> grad (h2 ! 0) = grad (minus_one_heap ! 0)
                       + (if data (minus_one_heap ! 0) < 0 then 2 * exp (data (h1 ! out)) else 1) * g))
           \<and> (data (minus_one_heap ! 0) < 0 \<and> overflow_bound \<le> exp (data (h1 ! out)) \<longrightarrow>
               run_closure (set_grad h1 out g) (Bw_ELU 2 0 out) = Inl (Raises OverflowError))"
    by blast
  from v d have v': "data (h1 ! out) = 2 * (exp (- 1) - 1)" by simp
  have "exp (- 1 :: real) < 1" by simp
  then have "2 * (exp (- 1 :: real) - 1) \<le> 0" by simp
  then have "exp (data (h1 ! out)) < overflow_bound" unfolding v' by (rule exp_nonpos_in_range)
  with s obtain h2 where "run_closure (set_grad h1 out 1) (Bw_ELU 2 0 out) = Inr h2"
    "grad (h2 ! 0) = grad (minus_one_heap ! 0)
        + (if data (minus_one_heap ! 0) < 0 then 2 * exp (data (h1 ! out)) else 1) * 1"
    by blast
  with d g0 v' have "\<exists>h2. run_closure (set_grad h1 out 1) (Bw_ELU 2 0 out) = Inr h2
               \<and> grad (h2 ! 0) = 0 + 2 * exp (2 * (exp (- 1) - 1)) * 1" by auto
  with l al f v' p show ?thesis by blast
qed

lemma Value_sigmoid_eq:
  assumes "a < length h"
    and "overflow_bound \<le> - data (h ! a) \<or> exp (- data (h ! a)) < overflow_bound"
  shows "Value_sigmoid h a =
     Inr (h @ [\<lparr>data = - 1, grad = 0, backward_fn = Bw_None, prev = [], op = Op_Leaf\<rparr>,
               \<lparr>data = - data (h ! a), grad = 0, backward_fn = Bw_Mul a (length h) (Suc (length h)),
                 prev = [a, length h], op = Op_Mul\<rparr>,
               \<lparr>data = exp (- data (h ! a)), grad = 0,
                 backward_fn = Bw_Exp (Suc (length h)) (Suc (Suc (length h))),
                 prev = [Suc (length h)], op = Op_Exp\<rparr>,
               \<lparr>data = 1 / (1 + exp (- data (h ! a))), grad = 0,
                 backward_fn = Bw_Sigmoid a (length h + 3), prev = [a], op = Op_Sigmoid\<rparr>],
          length h + 3)"
proof -
  let ?h1 = "h @ [\<lparr>data = - 1, grad = 0, backward_fn = Bw_None, prev = [], op = Op_Leaf\<rparr>,
               \<lparr>data = - data (h ! a), grad = 0, backward_fn = Bw_Mul a (length h) (Suc (length h)),
                 prev = [a, length h], op = Op_Mul\<rparr>]"
  have neg: "Value_neg h a = (?h1, Suc (length h))"
    using assms(1) by (simp add: Value_neg_def Value_mul_Raw)
  have d: "data (?h1 ! Suc (length h)) = - data (h ! a)" by (simp add: nth_append)
  have "overflow_bound \<le> data (?h1 ! Suc (length h))
      \<or> exp (data (?h1 ! Suc (length h))) < overflow_bound" using assms(2) by (simp only: d)
  from Value_exp_eq[OF this] have ex: "Value_exp ?h1 (Suc (length h)) =
      Inr (?h1 @ [\<lparr>data = exp (- data (h ! a)), grad = 0,
                 backward_fn = Bw_Exp (Suc (length h)) (Suc (Suc (length h))),
                 prev = [Suc (length h)], op = Op_Exp\<rparr>], Suc (Suc (length h)))"
    by (simp add: nth_append)
  have pos: "1 + exp (- data (h ! a)) \<noteq> 0"
    using exp_gt_zero[of "- data (h ! a)"] by linarith
  show ?thesis
    unfolding Value_sigmoid_def neg
    by (simp add: ex and_then_def py_truediv_def pos Value_init_def set_backward_def nth_append
        numeral_3_eq_3)
qed

lemma Value_sigmoid_raises:
  assumes "- data (h ! a) < overflow_bound" and "overflow_bound \<le> exp (- data (h ! a))"
    and "a < length h"
  shows "Value_sigmoid h a = Inl (Raises OverflowError)"
proof -
  let ?h1 = "h @ [\<lparr>data = - 1, grad = 0, backward_fn = Bw_None, prev = [], op = Op_Leaf\<rparr>,
               \<lparr>data = - data (h ! a), grad = 0, backward_fn = Bw_Mul a (length h) (Suc (length h)),
                 prev = [a, length h], op = Op_Mul\<rparr>]"
  have neg: "Value_neg h a = (?h1, Suc (length h))"
    using assms(3) by (simp add: Value_neg_def Value_mul_Raw)
  have d: "data (?h1 ! Suc (length h)) = - data (h ! a)" by (simp add: nth_append)
  have "data (?h1 ! Suc (length h)) < overflow_bound"
    "overflow_bound \<le> exp (data (?h1 ! Suc (length h)))" using assms(1,2) by (simp_all only: d)
  from Value_exp_raises[OF this] show ?thesis
    unfolding Value_sigmoid_def neg by (simp add: and_then_def)
qed

lemma Value_tanh_eq:
  assumes "a < length h"
    and "overflow_bound \<le> - (data (h ! a) * 2) \<or> exp (- (data (h ! a) * 2)) < overflow_bound"
  shows "Value_tanh h a =
     Inr (h @ [\<lparr>data = - 2, grad = 0, backward_fn = Bw_None, prev = [], op = Op_Leaf\<rparr>,
               \<lparr>data = - (data (h ! a) * 2), grad = 0, backward_fn = Bw_Mul a (length h) (Suc (length h)),
                 prev = [a, length h], op = Op_Mul\<rparr>,
               \<lparr>data = exp (- (data (h ! a) * 2)), grad = 0,
                 backward_fn = Bw_Exp (Suc (length h)) (Suc (Suc (length h))),
                 prev = [Suc (length h)], op = Op_Exp\<rparr>,
               \<lparr>data = 2 / (1 + exp (- (data (h ! a) * 2))) - 1, grad = 0,
                 backward_fn = Bw_Tanh a (length h + 3), prev = [a], op = Op_Tanh\<rparr>],
          length h + 3)"
proof -
  let ?h1 = "h @ [\<lparr>data = - 2, grad = 0, backward_fn = Bw_None, prev = [], op = Op_Leaf\<rparr>,
               \<lparr>data = - (data (h ! a) * 2), grad = 0, backward_fn = Bw_Mul a (length h) (Suc (length h)),
                 prev = [a, length h], op = Op_Mul\<rparr>]"
  have neg: "Value_rmul h a (Raw (- 2)) = (?h1, Suc (length h))"
    using assms(1) by (simp add: Value_rmul_def Value_mul_Raw)
  have d: "data (?h1 ! Suc (length h)) = - (data (h ! a) * 2)" by (simp add: nth_append)
  have "overflow_bound \<le> data (?h1 ! Suc (length h))
      \<or> exp (data (?h1 ! Suc (length h))) < overflow_bound" using assms(2) by (simp only: d)
  from Value_exp_eq[OF this] have ex: "Value_exp ?h1 (Suc (length h)) =
      Inr (?h1 @ [\<lparr>data = exp (- (data (h ! a) * 2)), grad = 0,
                 backward_fn = Bw_Exp (Suc (length h)) (Suc (Suc (length h))),
                 prev = [Suc (length h)], op = Op_Exp\<rparr>], Suc (Suc (length h)))"
    by (simp add: nth_append)
  have pos: "1 + exp (- (data (h ! a) * 2)) \<noteq> 0"
    using exp_gt_zero[of "- (data (h ! a) * 2)"] by linarith
  show ?thesis
    unfolding Value_tanh_def neg
    by (simp add: ex and_then_def py_truediv_def pos Value_init_def set_backward_def nth_append
        numeral_3_eq_3)
qed

lemma Value_tanh_raises:
  assumes "- (data (h ! a) * 2) < overflow_bound"
    and "overflow_bound \<le> exp (- (data (h ! a) * 2))" and "a < length h"
  shows "Value_tanh h a = Inl (Raises OverflowError)"
proof -
  let ?h1 = "h @ [\<lparr>data = - 2, grad = 0, backward_fn = Bw_None, prev = [], op = Op_Leaf\<rparr>,
               \<lparr>data = - (data (h ! a) * 2), grad = 0, backward_fn = Bw_Mul a (length h) (Suc (length h)),
                 prev = [a, length h], op = Op_Mul\<rparr>]"
  have neg: "Value_rmul h a (Raw (- 2)) = (?h1, Suc (length h))"
    using assms(3) by (simp add: Value_rmul_def Value_mul_Raw)
  have d: "data (?h1 ! Suc (length h)) = - (data (h ! a) * 2)" by (simp add: nth_append)
  have "data (?h1 ! Suc (length h)) < overflow_bound"
    "overflow_bound \<le> exp (data (?h1 ! Suc (length h)))" using assms(1,2) by (simp_all only: d)
  from Value_exp_raises[OF this] show ?thesis
    unfolding Value_tanh_def neg by (simp add: and_then_def)
qed

text \<open>\<^verbatim>\<open>Value(-2.0 ** 1023).tanh()\<close>: the value is a finite float, the product \<^verbatim>\<open>-2 * self.data\<close>
  is not, and \<^verbatim>\<open>tanh\<close> returns a node whose value is within \<open>2^-1023\<close> of \<open>-1\<close>, which a float
  rounds to \<open>-1.0\<close>.\<close>

lemma tanh_beyond_product_range:
  "\<bar>data (one_leaf (- (2 ^ 1023)) ! 0)\<bar> < overflow_bound
   \<and> (\<exists>h1 out. Value_tanh (one_leaf (- (2 ^ 1023))) 0 = Inr (h1, out)
         \<and> - 1 < data (h1 ! out) \<and> data (h1 ! out) \<le> - 1 + 2 / 2 ^ 1024)"
proof -
  let ?h = "one_leaf (- (2 ^ 1023))"
  have l: "0 < length ?h" and d: "data (?h ! 0) = - (2 ^ 1023)" by (simp_all add: one_leaf_eq)
  have p: "- (data (?h ! 0) * 2) = 2 ^ 1024" unfolding d by simp
  have fin: "\<bar>data (?h ! 0)\<bar> < overflow_bound" unfolding d by (simp add: overflow_bound_def)
  have "overflow_bound \<le> 2 ^ 1024" by (simp add: overflow_bound_def)
  then have "overflow_bound \<le> - (data (?h ! 0) * 2)
      \<or> exp (- (data (?h ! 0) * 2)) < overflow_bound" by (simp only: p) simp
  from Value_tanh_eq[OF l this] obtain h1 out where
    t: "Value_tanh ?h 0 = Inr (h1, out)"
    and v: "data (h1 ! out) = 2 / (1 + exp (- (data (?h ! 0) * 2))) - 1"
    by (auto simp: nth_append)
  let ?e = "exp (2 ^ 1024 :: real)"
  have "1 + (2 ^ 1024 :: real) \<le> ?e" by (rule exp_ge_add_one_self)
  then have big: "(2 ^ 1024 :: real) \<le> 1 + ?e" by linarith
  have "2 / (1 + ?e) \<le> 2 / 2 ^ 1024" using big by (intro divide_left_mono) simp_all
  moreover have "0 < 2 / (1 + ?e)" by (simp add: add_pos_pos)
  ultimately have "- 1 < data (h1 ! out) \<and> data (h1 ! out) \<le> - 1 + 2 / 2 ^ 1024"
    unfolding v p by linarith
  with t fin show ?thesis by blast
qed

lemma py_pow_square:
  assumes "y\<^sup>2 < overflow_bound"
  shows "py_pow y 2 = Inr (y\<^sup>2)"
proof (cases "y = 0")
  case True
  then show ?thesis by (simp add: py_pow_def)
next
  case False
  then show ?thesis using assms by (rule py_pow_2)
qed

lemma unary_result_backward_returns:
  assumes wf: "wf_heap h" and a: "a < length h"
    and wf1: "wf_heap h1" and out: "out < length h1" and pr: "prev (h1 ! out) = [a]"
    and len: "length h \<le> length h1" and same: "\<forall>i<length h. h1 ! i = h ! i"
    and step: "\<exists>k. run_closure h1 (backward_fn (h1 ! out)) = Inr k"
    and ret: "\<exists>k. Value_backward h a = Some (Inr k)"
  shows "\<exists>h2. Value_backward h1 out = Some (Inr h2)"
  unfolding backward_returns_iff[OF wf1 out]
proof (intro allI impI)
  fix v assume "(out, v) \<in> (operand_edges h1)\<^sup>*"
  from single_operand_reach[OF pr this]
  show "\<exists>k. run_closure h1 (backward_fn (h1 ! v)) = Inr k"
  proof
    assume "v = out"
    with step show ?thesis by simp
  next
    assume "(a, v) \<in> (operand_edges h1)\<^sup>*"
    with wf a ret len same show ?thesis by (rule old_closures_return)
  qed
qed

lemma sigmoid_result:
  assumes "wf_heap h" and "a < length h" and s: "Value_sigmoid h a = Inr (h1, out)"
  shows "out = length h + 3 \<and> length h1 = length h + 4 \<and> prev (h1 ! out) = [a]
            \<and> data (h1 ! out) = 1 / (1 + exp (- data (h ! a)))
            \<and> (\<forall>i. length h \<le> i \<and> i < out \<longrightarrow> (out, i) \<notin> (operand_edges h1)\<^sup>*)
            \<and> ((\<exists>k. Value_backward h a = Some (Inr k))
                  \<longrightarrow> (\<exists>h2. Value_backward h1 out = Some (Inr h2)))
            \<and> (\<forall>h2. Value_backward h1 out = Some (Inr h2) \<longrightarrow>
                 (\<exists>order. backward_order h1 out = Some order
                    \<and> (\<forall>i\<in>set order. i = out \<or> i < length h))
                 \<and> grad (h2 ! a) = grad (h ! a) + data (h1 ! out) * (1 - data (h1 ! out)))"
proof -
  have rng: "overflow_bound \<le> - data (h ! a) \<or> exp (- data (h ! a)) < overflow_bound"
  proof (rule ccontr)
    assume "\<not> (overflow_bound \<le> - data (h ! a) \<or> exp (- data (h ! a)) < overflow_bound)"
    then have "- data (h ! a) < overflow_bound" "overflow_bound \<le> exp (- data (h ! a))" by simp_all
    from Value_sigmoid_raises[OF this assms(2)] s show False by simp
  qed
  note eq = s[unfolded Value_sigmoid_eq[OF assms(2) rng]]
  from eq have out: "out = length h + 3" and len: "length h1 = length h + 4"
    and pr: "prev (h1 ! out) = [a]" and d: "data (h1 ! out) = 1 / (1 + exp (- data (h ! a)))"
    and c: "backward_fn (h1 ! out) = Bw_Sigmoid a out" and old: "h1 ! a = h ! a"
    and same: "\<forall>i<length h. h1 ! i = h ! i"
    using assms(2) by (auto simp: nth_append)
  have wf1: "wf_heap h1"
    using eq wf_heap_unary_chain[OF assms(1,2), of "Bw_Sigmoid a (length h + 3)"] by auto
  have ol: "out < length h1" using out len by simp
  note r = single_operand_result[OF wf1 ol pr assms(2)]
  have unreach: "\<forall>i. length h \<le> i \<and> i < out \<longrightarrow> (out, i) \<notin> (operand_edges h1)\<^sup>*"
    using r by blast
  have ret: "(\<exists>k. Value_backward h a = Some (Inr k))
                  \<longrightarrow> (\<exists>h2. Value_backward h1 out = Some (Inr h2))"
  proof
    assume b: "\<exists>k. Value_backward h a = Some (Inr k)"
    have le: "length h \<le> length h1" using len by simp
    have "\<exists>k. run_closure h1 (backward_fn (h1 ! out)) = Inr k" by (simp add: c)
    from unary_result_backward_returns[OF assms(1,2) wf1 ol pr le same this b]
    show "\<exists>h2. Value_backward h1 out = Some (Inr h2)" .
  qed
  have bw: "\<forall>h2. Value_backward h1 out = Some (Inr h2) \<longrightarrow>
         (\<exists>order. backward_order h1 out = Some order \<and> (\<forall>i\<in>set order. i = out \<or> i < length h))
         \<and> grad (h2 ! a) = grad (h ! a) + data (h1 ! out) * (1 - data (h1 ! out))"
  proof (intro allI impI)
    fix h2 assume run: "Value_backward h1 out = Some (Inr h2)"
    from r run have o: "\<exists>order. backward_order h1 out = Some order \<and> (\<forall>i\<in>set order. i = out \<or> i < length h)"
      and g: "grad (h2 ! out) = 1" "data (h2 ! out) = data (h1 ! out)"
        "grad (h2 ! a) = grad (h1 ! a) + contribution h2 (backward_fn (h1 ! out)) a" by blast+
    from g c old have "grad (h2 ! a) = grad (h ! a) + data (h1 ! out) * (1 - data (h1 ! out))"
      by simp
    with o show "(\<exists>order. backward_order h1 out = Some order \<and> (\<forall>i\<in>set order. i = out \<or> i < length h))
         \<and> grad (h2 ! a) = grad (h ! a) + data (h1 ! out) * (1 - data (h1 ! out))" by blast
  qed
  from out len pr d unreach ret bw show ?thesis by (intro conjI)
qed

lemma tanh_value_square:
  fixes e :: real
  assumes "0 < e"
  shows "(2 / (1 + e) - 1)\<^sup>2 < overflow_bound"
proof -
  have "0 < 2 / (1 + e)" using assms by simp
  moreover have "2 / (1 + e) < 2" using assms by (simp add: field_simps)
  ultimately have "\<bar>2 / (1 + e) - 1\<bar> \<le> 1" by (simp add: abs_if)
  then have "(2 / (1 + e) - 1)\<^sup>2 \<le> 1" by (simp add: abs_square_le_1)
  also note overflow_bound_gt_1
  finally show ?thesis .
qed

lemma tanh_result:
  assumes "wf_heap h" and "a < length h" and s: "Value_tanh h a = Inr (h1, out)"
  shows "out = length h + 3 \<and> length h1 = length h + 4 \<and> prev (h1 ! out) = [a]
            \<and> data (h1 ! out) = 2 / (1 + exp (- (data (h ! a) * 2))) - 1
            \<and> (\<forall>i. length h \<le> i \<and> i < out \<longrightarrow> (out, i) \<notin> (operand_edges h1)\<^sup>*)
            \<and> ((\<exists>k. Value_backward h a = Some (Inr k))
                  \<longrightarrow> (\<exists>h2. Value_backward h1 out = Some (Inr h2)))
            \<and> (\<forall>h2. Value_backward h1 out = Some (Inr h2) \<longrightarrow>
                 (\<exists>order. backward_order h1 out = Some order
                    \<and> (\<forall>i\<in>set order. i = out \<or> i < length h))
                 \<and> grad (h2 ! a) = grad (h ! a) + (1 - (data (h1 ! out))\<^sup>2))"
proof -
  have rng: "overflow_bound \<le> - (data (h ! a) * 2) \<or> exp (- (data (h ! a) * 2)) < overflow_bound"
  proof (rule ccontr)
    assume "\<not> (overflow_bound \<le> - (data (h ! a) * 2)
                \<or> exp (- (data (h ! a) * 2)) < overflow_bound)"
    then have "- (data (h ! a) * 2) < overflow_bound"
      "overflow_bound \<le> exp (- (data (h ! a) * 2))" by simp_all
    from Value_tanh_raises[OF this assms(2)] s show False by simp
  qed
  note eq = s[unfolded Value_tanh_eq[OF assms(2) rng]]
  from eq have out: "out = length h + 3" and len: "length h1 = length h + 4"
    and pr: "prev (h1 ! out) = [a]" and d: "data (h1 ! out) = 2 / (1 + exp (- (data (h ! a) * 2))) - 1"
    and c: "backward_fn (h1 ! out) = Bw_Tanh a out" and old: "h1 ! a = h ! a"
    and same: "\<forall>i<length h. h1 ! i = h ! i"
    using assms(2) by (auto simp: nth_append)
  have wf1: "wf_heap h1"
    using eq wf_heap_unary_chain[OF assms(1,2), of "Bw_Tanh a (length h + 3)"] by auto
  have ol: "out < length h1" using out len by simp
  note r = single_operand_result[OF wf1 ol pr assms(2)]
  have unreach: "\<forall>i. length h \<le> i \<and> i < out \<longrightarrow> (out, i) \<notin> (operand_edges h1)\<^sup>*"
    using r by blast
  have ret: "(\<exists>k. Value_backward h a = Some (Inr k))
                  \<longrightarrow> (\<exists>h2. Value_backward h1 out = Some (Inr h2))"
  proof
    assume b: "\<exists>k. Value_backward h a = Some (Inr k)"
    have le: "length h \<le> length h1" using len by simp
    have "(data (h1 ! out))\<^sup>2 < overflow_bound" unfolding d by (rule tanh_value_square) simp
    from py_pow_square[OF this]
    have "\<exists>k. run_closure h1 (backward_fn (h1 ! out)) = Inr k" by (simp add: c and_then_def)
    from unary_result_backward_returns[OF assms(1,2) wf1 ol pr le same this b]
    show "\<exists>h2. Value_backward h1 out = Some (Inr h2)" .
  qed
  have bw: "\<forall>h2. Value_backward h1 out = Some (Inr h2) \<longrightarrow>
         (\<exists>order. backward_order h1 out = Some order \<and> (\<forall>i\<in>set order. i = out \<or> i < length h))
         \<and> grad (h2 ! a) = grad (h ! a) + (1 - (data (h1 ! out))\<^sup>2)"
  proof (intro allI impI)
    fix h2 assume run: "Value_backward h1 out = Some (Inr h2)"
    from r run have o: "\<exists>order. backward_order h1 out = Some order \<and> (\<forall>i\<in>set order. i = out \<or> i < length h)"
      and g: "grad (h2 ! out) = 1" "data (h2 ! out) = data (h1 ! out)"
        "grad (h2 ! a) = grad (h1 ! a) + contribution h2 (backward_fn (h1 ! out)) a" by blast+
    from g c old have "grad (h2 ! a) = grad (h ! a) + (1 - (data (h1 ! out))\<^sup>2)"
      by simp
    with o show "(\<exists>order. backward_order h1 out = Some order \<and> (\<forall>i\<in>set order. i = out \<or> i < length h))
         \<and> grad (h2 ! a) = grad (h ! a) + (1 - (data (h1 ! out))\<^sup>2)" by blast
  qed
  from out len pr d unreach ret bw show ?thesis by (intro conjI)
qed

subsection \<open>Claim C10: sigmoid and tanh keep one operand\<close>

text \<open>
  C10. For every node \<open>a\<close>, \<^verbatim>\<open>a.sigmoid()\<close> returns a node \<open>out\<close> unless \<^verbatim>\<open>math.exp\<close> overflows
  (\<open>e^(-a.value)\<close> in the float range is enough), and \<open>out\<close> has the single operand \<open>a\<close>. The
  three nodes allocated on the way (the constant, the product and the exponential, at the
  references between the old heap and \<open>out\<close>) are not reachable from \<open>out\<close>. A backward pass
  from \<open>out\<close> returns whenever one from \<open>a\<close> does; it calls the closure of none of the three,
  and it adds \<open>out.value * (1 - out.value)\<close> to the gradient of \<open>a\<close>, once. The same holds
  of \<^verbatim>\<open>a.tanh()\<close>, with \<open>e^(-2 * a.value)\<close> and \<open>1 - out.value^2\<close>; \<^verbatim>\<open>tanh\<close> also returns when the
  product \<open>-2 * a.value\<close> itself has left the float range.
\<close>

theorem sigmoid_tanh_single_operand:
  assumes "wf_heap h" and "a < length h"
  shows "(overflow_bound \<le> - data (h ! a) \<or> exp (- data (h ! a)) < overflow_bound
            \<longrightarrow> (\<exists>h1 out. Value_sigmoid h a = Inr (h1, out)))
     \<and> (\<forall>h1 out. Value_sigmoid h a = Inr (h1, out) \<longrightarrow>
            out = length h + 3 \<and> length h1 = length h + 4 \<and> prev (h1 ! out) = [a]
            \<and> data (h1 ! out) = 1 / (1 + exp (- data (h ! a)))
            \<and> (\<forall>i. length h \<le> i \<and> i < out \<longrightarrow> (out, i) \<notin> (operand_edges h1)\<^sup>*)
            \<and> ((\<exists>k. Value_backward h a = Some (Inr k))
                  \<longrightarrow> (\<exists>h2. Value_backward h1 out = Some (Inr h2)))
            \<and> (\<forall>h2. Value_backward h1 out = Some (Inr h2) \<longrightarrow>
                 (\<exists>order. backward_order h1 out = Some order
                    \<and> (\<forall>i\<in>set order. i = out \<or> i < length h))
                 \<and> grad (h2 ! a) = grad (h ! a) + data (h1 ! out) * (1 - data (h1 ! out))))
     \<and> (overflow_bound \<le> - (data (h ! a) * 2) \<or> exp (- (data (h ! a) * 2)) < overflow_bound
            \<longrightarrow> (\<exists>h1 out. Value_tanh h a = Inr (h1, out)))
     \<and> (\<forall>h1 out. Value_tanh h a = Inr (h1, out) \<longrightarrow>
            out = length h + 3 \<and> length h1 = length h + 4 \<and> prev (h1 ! out) = [a]
            \<and> data (h1 ! out) = 2 / (1 + exp (- (data (h ! a) * 2))) - 1
            \<and> (\<forall>i. length h \<le> i \<and> i < out \<longrightarrow> (out, i) \<notin> (operand_edges h1)\<^sup>*)
            \<and> ((\<exists>k. Value_backward h a = Some (Inr k))
                  \<longrightarrow> (\<exists>h2. Value_backward h1 out = Some (Inr h2)))
            \<and> (\<forall>h2. Value_backward h1 out = Some (Inr h2) \<longrightarrow>
                 (\<exists>order. backward_order h1 out = Some order
                    \<and> (\<forall>i\<in>set order. i = out \<or> i < length h))
                 \<and> grad (h2 ! a) = grad (h ! a) + (1 - (data (h1 ! out))\<^sup>2)))"
proof (intro conjI)
  show "overflow_bound \<le> - data (h ! a) \<or> exp (- data (h ! a)) < overflow_bound
            \<longrightarrow> (\<exists>h1 out. Value_sigmoid h a = Inr (h1, out))"
    using Value_sigmoid_eq[OF assms(2)] by blast
  show "overflow_bound \<le> - (data (h ! a) * 2) \<or> exp (- (data (h ! a) * 2)) < overflow_bound
            \<longrightarrow> (\<exists>h1 out. Value_tanh h a = Inr (h1, out))"
    using Value_tanh_eq[OF assms(2)] by blast
  show "\<forall>h1 out. Value_sigmoid h a = Inr (h1, out) \<longrightarrow>
            out = length h + 3 \<and> length h1 = length h + 4 \<and> prev (h1 ! out) = [a]
            \<and> data (h1 ! out) = 1 / (1 + exp (- data (h ! a)))
            \<and> (\<forall>i. length h \<le> i \<and> i < out \<longrightarrow> (out, i) \<notin> (operand_edges h1)\<^sup>*)
            \<and> ((\<exists>k. Value_backward h a = Some (Inr k))
                  \<longrightarrow> (\<exists>h2. Value_backward h1 out = Some (Inr h2)))
            \<and> (\<forall>h2. Value_backward h1 out = Some (Inr h2) \<longrightarrow>
                 (\<exists>order. backward_order h1 out = Some order
                    \<and> (\<forall>i\<in>set order. i = out \<or> i < length h))
                 \<and> grad (h2 ! a) = grad (h ! a) + data (h1 ! out) * (1 - data (h1 ! out)))"
    by (intro allI impI) (rule sigmoid_result[OF assms])
  show "\<forall>h1 out. Value_tanh h a = Inr (h1, out) \<longrightarrow>
            out = length h + 3 \<and> length h1 = length h + 4 \<and> prev (h1 ! out) = [a]
            \<and> data (h1 ! out) = 2 / (1 + exp (- (data (h ! a) * 2))) - 1
            \<and> (\<forall>i. length h \<le> i \<and> i < out \<longrightarrow> (out, i) \<notin> (operand_edges h1)\<^sup>*)
            \<and> ((\<exists>k. Value_backward h a = Some (Inr k))
                  \<longrightarrow> (\<exists>h2. Value_backward h1 out = Some (Inr h2)))
            \<and> (\<forall>h2. Value_backward h1 out = Some (Inr h2) \<longrightarrow>
                 (\<exists>order. backward_order h1 out = Some order
                    \<and> (\<forall>i\<in>set order. i = out \<or> i < length h))
                 \<and> grad (h2 ! a) = grad (h ! a) + (1 - (data (h1 ! out))\<^sup>2))"
    by (intro allI impI) (rule tanh_result[OF assms])
qed

lemma zero_heap_eq:
  "zero_heap = [\<lparr>data = 0, grad = 0, backward_fn = Bw_None, prev = [], op = Op_Leaf\<rparr>]"
  by (simp add: zero_heap_def Value_init_def)

lemma zero_heap_wf: "wf_heap zero_heap"
  by (simp add: zero_heap_eq wf_heap_def wf_node_def)

lemma zero_sigmoid: "Value_sigmoid zero_heap 0 = Inr (sigmoid_heap, 4)"
proof -
  have "exp (- data (zero_heap ! 0)) < overflow_bound"
    by (intro exp_nonpos_in_range) (simp add: zero_heap_eq)
  from Value_sigmoid_eq[OF _ disjI2[OF this]] show ?thesis
    by (simp add: zero_heap_eq sigmoid_heap_def)
qed

lemma zero_tanh: "Value_tanh zero_heap 0 = Inr (tanh_heap, 4)"
proof -
  have "exp (- (data (zero_heap ! 0) * 2)) < overflow_bound"
    by (intro exp_nonpos_in_range) (simp add: zero_heap_eq)
  from Value_tanh_eq[OF _ disjI2[OF this]] show ?thesis
    by (simp add: zero_heap_eq tanh_heap_def)
qed

lemma sigmoid_order: "backward_order sigmoid_heap 4 = Some [4, 0]"
  by (simp add: sigmoid_heap_def backward_order_def eval_nat_numeral)

lemma tanh_order: "backward_order tanh_heap 4 = Some [4, 0]"
  by (simp add: tanh_heap_def backward_order_def eval_nat_numeral)

lemma sigmoid_backward: "Value_backward sigmoid_heap 4 = Some (Inr sigmoid_after)"
  by (simp add: Value_backward_def sigmoid_order)
    (simp add: sigmoid_heap_def sigmoid_after_def set_grad_def add_grad_def and_then_def)

lemma tanh_backward: "Value_backward tanh_heap 4 = Some (Inr tanh_after)"
  by (simp add: Value_backward_def tanh_order)
    (simp add: tanh_heap_def tanh_after_def set_grad_def add_grad_def and_then_def py_pow_def)

lemma zero_heap_backward: "\<exists>k. Value_backward zero_heap 0 = Some (Inr k)"
  by (simp add: Value_backward_def backward_order_def zero_heap_eq set_grad_def and_then_def)

theorem sigmoid_tanh_single_operand_witness:
  "wf_heap zero_heap \<and> 0 < length zero_heap
   \<and> Value_sigmoid zero_heap 0 = Inr (sigmoid_heap, 4)
   \<and> Value_backward sigmoid_heap 4 = Some (Inr sigmoid_after)
   \<and> prev (sigmoid_heap ! 4) = [0] \<and> data (sigmoid_heap ! 4) = 1 / 2
   \<and> (4, 2) \<notin> (operand_edges sigmoid_heap)\<^sup>*
   \<and> backward_order sigmoid_heap 4 = Some [4, 0]
   \<and> grad (sigmoid_after ! 0) = 0 + 1 / 2 * (1 - 1 / 2)
   \<and> Value_tanh zero_heap 0 = Inr (tanh_heap, 4)
   \<and> Value_backward tanh_heap 4 = Some (Inr tanh_after)
   \<and> prev (tanh_heap ! 4) = [0] \<and> data (tanh_heap ! 4) = 0
   \<and> (4, 3) \<notin> (operand_edges tanh_heap)\<^sup>*
   \<and> backward_order tanh_heap 4 = Some [4, 0]
   \<and> grad (tanh_after ! 0) = 0 + (1 - 0\<^sup>2)
   \<and> exp (- data (zero_heap ! 0)) < overflow_bound
   \<and> exp (- (data (zero_heap ! 0) * 2)) < overflow_bound
   \<and> (\<exists>k. Value_backward zero_heap 0 = Some (Inr k))"
proof -
  have l: "0 < length zero_heap" by (simp add: zero_heap_eq)
  note inst = sigmoid_tanh_single_operand[OF zero_heap_wf l]
  note t = inst[THEN conjunct2, THEN conjunct1, rule_format, OF zero_sigmoid]
  note u = inst[THEN conjunct2, THEN conjunct2, THEN conjunct2, rule_format, OF zero_tanh]
  from t have p: "prev (sigmoid_heap ! 4) = [0]" by blast
  from t have r: "\<forall>i. length zero_heap \<le> i \<and> i < 4 \<longrightarrow> (4, i) \<notin> (operand_edges sigmoid_heap)\<^sup>*"
    by blast
  have "length zero_heap \<le> 2 \<and> (2::nat) < 4" by (simp add: zero_heap_eq)
  with r have nr: "(4, 2) \<notin> (operand_edges sigmoid_heap)\<^sup>*" by blast
  from t sigmoid_backward
  have "grad (sigmoid_after ! 0) = grad (zero_heap ! 0) + data (sigmoid_heap ! 4) * (1 - data (sigmoid_heap ! 4))"
    by blast
  then have g: "grad (sigmoid_after ! 0) = 0 + 1 / 2 * (1 - 1 / 2)"
    by (simp add: zero_heap_eq sigmoid_heap_def)
  have d: "data (sigmoid_heap ! 4) = 1 / 2" by (simp add: sigmoid_heap_def)
  from u have p': "prev (tanh_heap ! 4) = [0]" by blast
  from u have r': "\<forall>i. length zero_heap \<le> i \<and> i < 4 \<longrightarrow> (4, i) \<notin> (operand_edges tanh_heap)\<^sup>*"
    by blast
  have "length zero_heap \<le> 3 \<and> (3::nat) < 4" by (simp add: zero_heap_eq)
  with r' have nr': "(4, 3) \<notin> (operand_edges tanh_heap)\<^sup>*" by blast
  from u tanh_backward
  have "grad (tanh_after ! 0) = grad (zero_heap ! 0) + (1 - (data (tanh_heap ! 4))\<^sup>2)"
    by blast
  then have g': "grad (tanh_after ! 0) = 0 + (1 - 0\<^sup>2)"
    by (simp add: zero_heap_eq tanh_heap_def)
  have d': "data (tanh_heap ! 4) = 0" by (simp add: tanh_heap_def)
  have e: "exp (- data (zero_heap ! 0)) < overflow_bound"
    "exp (- (data (zero_heap ! 0) * 2)) < overflow_bound"
    by (intro exp_nonpos_in_range, simp add: zero_heap_eq)+
  from zero_heap_wf l zero_sigmoid sigmoid_backward p d nr sigmoid_order g
    zero_tanh tanh_backward p' d' nr' tanh_order g' e zero_heap_backward
  show ?thesis by (intro conjI)
qed

lemma targets_reach:
  assumes "wf_heap h" and "c < length h" and "t \<in> set (closure_targets (backward_fn (h ! c)))"
  shows "(c, t) \<in> (operand_edges h)\<^sup>*"
proof -
  from assms have n: "wf_node h c" by (simp add: wf_heap_node)
  with assms(3) consider "t \<in> set (prev (h ! c))"
    | p where "p \<in> set (prev (h ! c))" "t \<in> set (prev (h ! p))"
    by (auto simp: wf_node_def)
  then show ?thesis
  proof cases
    case 1
    with assms(2) have "(c, t) \<in> operand_edges h" by (simp add: operand_edges_def)
    then show ?thesis by simp
  next
    case 2
    from 2(1) assms(2) have cp: "(c, p) \<in> operand_edges h" by (simp add: operand_edges_def)
    from 2(1) assms(1,2) have "p < c" by (simp add: wf_heap_children)
    with assms(2) 2(2) have "(p, t) \<in> operand_edges h" by (simp add: operand_edges_def)
    with cp show ?thesis by simp
  qed
qed

lemma root_and_one_write:
  assumes wf: "wf_heap h" and rt: "rt < length h" and run: "Value_backward h rt = Some (Inr h')"
    and x: "x < length h" "x \<noteq> rt"
    and w: "(rt, w) \<in> (operand_edges h)\<^sup>*" "w \<noteq> rt"
    and only: "\<And>c. (rt, c) \<in> (operand_edges h)\<^sup>* \<Longrightarrow> c \<noteq> rt \<Longrightarrow> c \<noteq> w
                 \<Longrightarrow> x \<notin> set (closure_targets (backward_fn (h ! c)))"
  shows "grad (h' ! x) = grad (h ! x) + contribution h' (backward_fn (h ! rt)) x
                                      + contribution h' (backward_fn (h ! w)) x"
proof -
  have refl: "\<forall>i<length h. data (h ! i) = data (h ! i) \<and> prev (h ! i) = prev (h ! i)
          \<and> backward_fn (h ! i) = backward_fn (h ! i)" by simp
  from backward_effect[OF wf rt le_refl refl run] obtain rest where
    dist: "distinct (rt # rest)"
    and reach: "set (rt # rest) = (operand_edges h)\<^sup>* `` {rt}"
    and acc: "\<forall>x<length h. x \<noteq> rt \<longrightarrow> grad (h' ! x) = grad (h ! x)
                  + (\<Sum>v\<leftarrow>rt # rest. contribution h' (backward_fn (h ! v)) x)"
    by blast
  have zero: "\<forall>c\<in>set (rt # rest). c \<noteq> rt \<and> c \<noteq> w \<longrightarrow> contribution h' (backward_fn (h ! c)) x = 0"
  proof (intro ballI impI)
    fix c assume c: "c \<in> set (rt # rest)" "c \<noteq> rt \<and> c \<noteq> w"
    with reach have "(rt, c) \<in> (operand_edges h)\<^sup>*" by auto
    from only[OF this] c(2) show "contribution h' (backward_fn (h ! c)) x = 0"
      by (intro contribution_zero) simp
  qed
  have r: "rt \<in> set (rt # rest)" by simp
  have w': "w \<in> set (rt # rest)" using w(1) reach by auto
  from sum_list_two[OF dist r w' w(2)[symmetric] zero] acc x show ?thesis by simp
qed

lemma Value_truediv_Ref:
  assumes "a < length h" and "b < length h"
    and "data (h ! b) \<noteq> 0" and "\<bar>1 / data (h ! b)\<bar> < overflow_bound"
  shows "Value_truediv h a (Ref b) =
     Inr (h @ [\<lparr>data = - 1, grad = 0, backward_fn = Bw_None, prev = [], op = Op_Leaf\<rparr>,
               \<lparr>data = 1 / data (h ! b), grad = 0, backward_fn = Bw_Pow b (length h) (Suc (length h)),
                 prev = [b, length h], op = Op_Pow\<rparr>,
               \<lparr>data = data (h ! a) * (1 / data (h ! b)), grad = 0,
                 backward_fn = Bw_Div a (Ref b) (length h + 2),
                 prev = [a, Suc (length h)], op = Op_Mul\<rparr>],
          length h + 2)"
  using assms(1,2)
  by (simp add: Value_truediv_def Value_pow_def Value_mul_def Value_init_def set_backward_def
      and_then_def nth_append py_pow_neg1[OF assms(3,4)] numeral_2_eq_2)

lemma Div_step_returns:
  assumes "data (g ! b) \<noteq> 0" and "(data (g ! b))\<^sup>2 < overflow_bound"
  shows "\<exists>k. run_closure g (Bw_Div a (Ref b) out) = Inr k"
proof -
  have nz: "(data (g ! b))\<^sup>2 \<noteq> 0" using assms(1) by simp
  show ?thesis
    by (simp add: and_then_def py_truediv_def assms(1) Let_def add_grad_frame
        py_pow_2[OF assms] nz)
qed

lemma inverse_Pow_step_returns:
  assumes "data (g ! b) \<noteq> 0" and "1 / (data (g ! b))\<^sup>2 < overflow_bound"
    and "data (g ! w) = - 1"
  shows "\<exists>k. run_closure g (Bw_Pow b w p) = Inr k"
proof -
  note r = inverse_in_range[OF assms(1,2)]
  note pw = py_pow_neg2[OF assms(1,2)] py_pow_neg1[OF assms(1) r]
  show ?thesis
    by (simp add: assms(1,3) Let_def and_then_def pw py_log_def)
qed

lemma truediv_result:
  assumes wf: "wf_heap h" and a: "a < length h" and b: "b < length h"
    and nz: "data (h ! b) \<noteq> 0" and r1: "1 / (data (h ! b))\<^sup>2 < overflow_bound"
    and r2: "(data (h ! b))\<^sup>2 < overflow_bound"
    and dv: "Value_truediv h a (Ref b) = Inr (h1, out)"
  shows "((\<exists>k. Value_backward h a = Some (Inr k)) \<and> (\<exists>k. Value_backward h b = Some (Inr k))
           \<longrightarrow> (\<exists>h2. Value_backward h1 out = Some (Inr h2)))
     \<and> (\<forall>h2. Value_backward h1 out = Some (Inr h2) \<and> a \<noteq> b
             \<and> (a, b) \<notin> (operand_edges h)\<^sup>* \<and> (b, a) \<notin> (operand_edges h)\<^sup>* \<longrightarrow>
            grad (h2 ! a) = grad (h ! a) + 1 / data (h ! b)
          \<and> grad (h2 ! b) = grad (h ! b) - data (h ! a) / (data (h ! b))\<^sup>2)"
proof -
  let ?L = "length h"
  let ?y = "data (h ! b)"
  let ?n1 = "\<lparr>data = - 1 :: real, grad = 0, backward_fn = Bw_None, prev = [], op = Op_Leaf\<rparr>"
  let ?n2 = "\<lparr>data = 1 / ?y, grad = 0, backward_fn = Bw_Pow b ?L (Suc ?L),
               prev = [b, ?L], op = Op_Pow\<rparr>"
  let ?n3 = "\<lparr>data = data (h ! a) * (1 / ?y), grad = 0, backward_fn = Bw_Div a (Ref b) (?L + 2),
               prev = [a, Suc ?L], op = Op_Mul\<rparr>"
  note rng = inverse_in_range[OF nz r1]
  from dv Value_truediv_Ref[OF a b nz rng]
  have h1: "h1 = ((h @ [?n1]) @ [?n2]) @ [?n3]" and out: "out = ?L + 2" by auto
  have 1: "wf_heap (h @ [?n1])" using wf by (rule wf_heap_snoc) (rule wf_node_new, simp_all)
  have 2: "wf_heap ((h @ [?n1]) @ [?n2])"
    using 1 by (rule wf_heap_snoc) (rule wf_node_new, use b in \<open>simp_all add: nth_append\<close>)
  have wf1: "wf_heap h1" unfolding h1
    using 2 by (rule wf_heap_snoc) (rule wf_node_new, use a b in \<open>auto simp: nth_append\<close>)
  have nodes: "h1 ! a = h ! a" "h1 ! b = h ! b"
    "prev (h1 ! ?L) = []" "backward_fn (h1 ! ?L) = Bw_None" "data (h1 ! ?L) = - 1"
    "prev (h1 ! Suc ?L) = [b, ?L]" "backward_fn (h1 ! Suc ?L) = Bw_Pow b ?L (Suc ?L)"
    "grad (h1 ! Suc ?L) = 0"
    "prev (h1 ! out) = [a, Suc ?L]" "backward_fn (h1 ! out) = Bw_Div a (Ref b) out"
    using a b by (simp_all add: h1 out nth_append)
  have len: "out < length h1" "a < length h1" "b < length h1" "Suc ?L < length h1"
    "a \<noteq> out" "b \<noteq> out" "Suc ?L \<noteq> out" "?L \<le> length h1"
    using a b by (simp_all add: h1 out)
  have same: "\<forall>i<?L. h1 ! i = h ! i" by (simp add: h1 nth_append)
  have ok: "refs_ok h" using wf by (rule wf_heap_refs_ok)
  have cases_reach: "c = out \<or> (a, c) \<in> (operand_edges h1)\<^sup>* \<or> c = Suc ?L
      \<or> (b, c) \<in> (operand_edges h1)\<^sup>* \<or> c = ?L"
    if c: "(out, c) \<in> (operand_edges h1)\<^sup>*" for c
  proof -
    from operands_reach[OF c] nodes(9)
    consider "c = out" | "(a, c) \<in> (operand_edges h1)\<^sup>*" | "(Suc ?L, c) \<in> (operand_edges h1)\<^sup>*"
      by auto
    then show ?thesis
    proof cases
      case 3
      from operands_reach[OF 3] nodes(6)
      consider "c = Suc ?L" | "(b, c) \<in> (operand_edges h1)\<^sup>*" | "(?L, c) \<in> (operand_edges h1)\<^sup>*"
        by auto
      then show ?thesis
      proof cases
        case 3
        from leaf_reach[OF nodes(3) this] show ?thesis by simp
      qed simp_all
    qed simp_all
  qed
  have old_reach: "(s, c) \<in> (operand_edges h)\<^sup>*"
    if "(s, c) \<in> (operand_edges h1)\<^sup>*" "s < ?L" for s c
    using that(1) ok that(2) len(8) same by (intro reach_extend[of s c h1 h]) simp_all
  have p_reach: "(out, Suc ?L) \<in> (operand_edges h1)\<^sup>*"
  proof -
    have "(out, Suc ?L) \<in> operand_edges h1" using len(1) nodes(9) by (simp add: operand_edges_def)
    then show ?thesis by simp
  qed
  have ret: "(\<exists>k. Value_backward h a = Some (Inr k)) \<and> (\<exists>k. Value_backward h b = Some (Inr k))
           \<longrightarrow> (\<exists>h2. Value_backward h1 out = Some (Inr h2))"
  proof
    assume ab: "(\<exists>k. Value_backward h a = Some (Inr k)) \<and> (\<exists>k. Value_backward h b = Some (Inr k))"
    show "\<exists>h2. Value_backward h1 out = Some (Inr h2)"
      unfolding backward_returns_iff[OF wf1 len(1)]
    proof (intro allI impI)
      fix c assume "(out, c) \<in> (operand_edges h1)\<^sup>*"
      from cases_reach[OF this]
      consider "c = out" | "(a, c) \<in> (operand_edges h1)\<^sup>*" | "c = Suc ?L"
        | "(b, c) \<in> (operand_edges h1)\<^sup>*" | "c = ?L" by blast
      then show "\<exists>k. run_closure h1 (backward_fn (h1 ! c)) = Inr k"
      proof cases
        case 1
        have "data (h1 ! b) \<noteq> 0" "(data (h1 ! b))\<^sup>2 < overflow_bound"
          using nz r2 by (simp_all add: nodes(2))
        from Div_step_returns[OF this] 1 nodes(10) show ?thesis by simp
      next
        case 2
        from ab have "\<exists>k. Value_backward h a = Some (Inr k)" by simp
        with wf a show ?thesis using len(8) same 2 by (rule old_closures_return)
      next
        case 3
        have "data (h1 ! b) \<noteq> 0" "1 / (data (h1 ! b))\<^sup>2 < overflow_bound"
          using nz r1 by (simp_all add: nodes(2))
        from inverse_Pow_step_returns[OF this nodes(5)] 3 nodes(7) show ?thesis by simp
      next
        case 4
        from ab have "\<exists>k. Value_backward h b = Some (Inr k)" by simp
        with wf b show ?thesis using len(8) same 4 by (rule old_closures_return)
      next
        case 5
        with nodes(4) show ?thesis by simp
      qed
    qed
  qed
  have eff: "\<forall>h2. Value_backward h1 out = Some (Inr h2) \<and> a \<noteq> b
             \<and> (a, b) \<notin> (operand_edges h)\<^sup>* \<and> (b, a) \<notin> (operand_edges h)\<^sup>* \<longrightarrow>
            grad (h2 ! a) = grad (h ! a) + 1 / data (h ! b)
          \<and> grad (h2 ! b) = grad (h ! b) - data (h ! a) / (data (h ! b))\<^sup>2"
  proof (intro allI impI, elim conjE)
    fix h2
    assume run: "Value_backward h1 out = Some (Inr h2)" and ne: "a \<noteq> b"
      and nab: "(a, b) \<notin> (operand_edges h)\<^sup>*" and nba: "(b, a) \<notin> (operand_edges h)\<^sup>*"
    from backward_frame[OF run] len have d2: "data (h2 ! a) = data (h ! a)" "data (h2 ! b) = ?y"
      by (simp_all add: nodes(1,2))
    have not_a: "a \<notin> set (closure_targets (backward_fn (h1 ! c)))"
      if c: "(out, c) \<in> (operand_edges h1)\<^sup>*" "c \<noteq> out" for c
    proof -
      from cases_reach[OF c(1)] c(2)
      consider "(a, c) \<in> (operand_edges h1)\<^sup>*" | "c = Suc ?L"
        | "(b, c) \<in> (operand_edges h1)\<^sup>*" | "c = ?L" by blast
      then show ?thesis
      proof cases
        case 1
        then show ?thesis using wf1 len(2) by (intro below_not_target)
      next
        case 2
        with nodes(7) ne a show ?thesis by simp
      next
        case 3
        show ?thesis
        proof
          assume t: "a \<in> set (closure_targets (backward_fn (h1 ! c)))"
          from reach_le[OF 3 wf1] len(3) have "c < length h1" by simp
          from targets_reach[OF wf1 this t] 3 have "(b, a) \<in> (operand_edges h1)\<^sup>*" by simp
          from old_reach[OF this b] nba show False by simp
        qed
      next
        case 4
        with nodes(4) show ?thesis by simp
      qed
    qed
    from only_root_writes[OF wf1 len(1) run len(2,5) not_a]
    have ga: "grad (h2 ! a) = grad (h1 ! a) + contribution h2 (backward_fn (h1 ! out)) a"
      and go: "grad (h2 ! out) = 1" by blast+
    have not_p: "Suc ?L \<notin> set (closure_targets (backward_fn (h1 ! c)))"
      if c: "(out, c) \<in> (operand_edges h1)\<^sup>*" "c \<noteq> out" for c
    proof
      assume t: "Suc ?L \<in> set (closure_targets (backward_fn (h1 ! c)))"
      from reach_le[OF c(1) wf1] c(2) have "c < out" by simp
      then have cl: "c < length h1" "c \<le> Suc ?L" using len(1) out by simp_all
      from wf_node_targets[OF wf1 cl(1) t] cl(2) show False by simp
    qed
    from only_root_writes(1)[OF wf1 len(1) run len(4,7) not_p]
    have gp: "grad (h2 ! Suc ?L) = 0" using a b by (simp add: nodes(8,10))
    have not_b: "b \<notin> set (closure_targets (backward_fn (h1 ! c)))"
      if c: "(out, c) \<in> (operand_edges h1)\<^sup>*" "c \<noteq> out" "c \<noteq> Suc ?L" for c
    proof -
      from cases_reach[OF c(1)] c(2,3)
      consider "(a, c) \<in> (operand_edges h1)\<^sup>*" | "(b, c) \<in> (operand_edges h1)\<^sup>*" | "c = ?L"
        by blast
      then show ?thesis
      proof cases
        case 1
        show ?thesis
        proof
          assume t: "b \<in> set (closure_targets (backward_fn (h1 ! c)))"
          from reach_le[OF 1 wf1] len(2) have "c < length h1" by simp
          from targets_reach[OF wf1 this t] 1 have "(a, b) \<in> (operand_edges h1)\<^sup>*" by simp
          from old_reach[OF this a] nab show False by simp
        qed
      next
        case 2
        then show ?thesis using wf1 len(3) by (intro below_not_target)
      next
        case 3
        with nodes(4) show ?thesis by simp
      qed
    qed
    from root_and_one_write[OF wf1 len(1) run len(3,6) p_reach len(7) not_b]
    have gb: "grad (h2 ! b) = grad (h1 ! b) + contribution h2 (backward_fn (h1 ! out)) b
                + contribution h2 (backward_fn (h1 ! Suc ?L)) b" .
    from ga go d2 ne have "grad (h2 ! a) = grad (h ! a) + 1 / ?y"
      by (simp add: nodes(1,10))
    moreover from gb go gp d2 ne b have "grad (h2 ! b) = grad (h ! b) - data (h ! a) / ?y\<^sup>2"
      by (simp add: nodes(2,7,10))
    ultimately show "grad (h2 ! a) = grad (h ! a) + 1 / data (h ! b)
          \<and> grad (h2 ! b) = grad (h ! b) - data (h ! a) / (data (h ! b))\<^sup>2" by simp
  qed
  from ret eff show ?thesis by (rule conjI)
qed

lemma product_heap_eq:
  "product_heap =
     [\<lparr>data = 2, grad = 0, backward_fn = Bw_None, prev = [], op = Op_Leaf\<rparr>,
      \<lparr>data = 3, grad = 0, backward_fn = Bw_None, prev = [], op = Op_Leaf\<rparr>,
      \<lparr>data = 6, grad = 0, backward_fn = Bw_Mul 0 1 2, prev = [0, 1], op = Op_Mul\<rparr>,
      \<lparr>data = 2, grad = 0, backward_fn = Bw_None, prev = [], op = Op_Leaf\<rparr>]"
  by (simp add: product_heap_def Value_init_def Value_mul_def set_backward_def)

lemma product_heap_wf: "wf_heap product_heap"
  by (simp add: product_heap_eq wf_heap_def wf_node_def upt_rec)

lemma product_range:
  "data (product_heap ! 3) \<noteq> 0" "1 / (data (product_heap ! 3))\<^sup>2 < overflow_bound"
  "(data (product_heap ! 3))\<^sup>2 < overflow_bound"
  by (simp_all add: product_heap_eq overflow_bound_def)

lemma product_truediv: "Value_truediv product_heap 2 (Ref 3) = Inr (product_quotient, 6)"
proof -
  have l: "2 < length product_heap" "3 < length product_heap" by (simp_all add: product_heap_eq)
  note r = inverse_in_range[OF product_range(1,2)]
  from Value_truediv_Ref[OF l product_range(1) r] show ?thesis
    by (simp add: product_heap_eq product_quotient_def)
qed

lemma product_quotient_order: "backward_order product_quotient 6 = Some [6, 5, 4, 3, 2, 1, 0]"
  by (simp add: product_quotient_def backward_order_def eval_nat_numeral)

lemma product_quotient_backward:
  "Value_backward product_quotient 6 = Some (Inr product_quotient_after)"
proof -
  have r: "(2::real) \<noteq> 0" "1 / (2::real)\<^sup>2 < overflow_bound" "(2::real)\<^sup>2 < overflow_bound"
    by (simp_all add: overflow_bound_def)
  note p = py_pow_neg1[OF r(1) inverse_in_range[OF r(1,2)]] py_pow_2[OF r(1,3)]
    py_pow_neg2[OF r(1,2)]
  show ?thesis
    by (simp add: Value_backward_def product_quotient_order)
      (simp add: product_quotient_def product_quotient_after_def set_grad_def add_grad_def
        and_then_def py_truediv_def py_log_def p Let_def)
qed

lemma self_quotient_forward: "Value_truediv (one_leaf 2) 0 (Ref 0) = Inr (self_quotient, 3)"
proof -
  have l: "0 < length (one_leaf 2)" and nz: "data (one_leaf 2 ! 0) \<noteq> 0"
    and r: "\<bar>1 / data (one_leaf 2 ! 0)\<bar> < overflow_bound"
    by (simp_all add: one_leaf_eq overflow_bound_def)
  from Value_truediv_Ref[OF l l nz r] show ?thesis
    by (simp add: one_leaf_eq self_quotient_def)
qed

lemma self_quotient_order: "backward_order self_quotient 3 = Some [3, 2, 1, 0]"
  by (simp add: self_quotient_def backward_order_def eval_nat_numeral)

lemma self_quotient_backward:
  "Value_backward self_quotient 3 = Some (Inr self_quotient_after)"
proof -
  have r: "(2::real) \<noteq> 0" "1 / (2::real)\<^sup>2 < overflow_bound" "(2::real)\<^sup>2 < overflow_bound"
    by (simp_all add: overflow_bound_def)
  note p = py_pow_neg1[OF r(1) inverse_in_range[OF r(1,2)]] py_pow_2[OF r(1,3)]
    py_pow_neg2[OF r(1,2)]
  show ?thesis
    by (simp add: Value_backward_def self_quotient_order)
      (simp add: self_quotient_def self_quotient_after_def set_grad_def add_grad_def
        and_then_def py_truediv_def py_log_def p Let_def)
qed

subsection \<open>Claim C3: division\<close>

text \<open>
  C3 says that \<^verbatim>\<open>a / b\<close> produces its node for every finite nonzero \<open>b.value\<close>, and that
  \<^verbatim>\<open>backward()\<close> leaves \<open>a.grad = 1 / b.value\<close> and \<open>b.grad = - a.value / b.value^2\<close> for all
  nodes \<open>a\<close> and \<open>b\<close>. It fails in two ways. The division is \<^verbatim>\<open>a * b ** -1\<close>, and for the
  smallest positive float, \<open>2^-1074\<close>, the power \<open>2^1074\<close> is out of range: the forward pass
  raises \<^verbatim>\<open>OverflowError\<close>. And \<open>a\<close> and \<open>b\<close> may be the same node: after
  \<^verbatim>\<open>a = Value(2.0); c = a / a; c.backward()\<close> the two contributions have been added to the
  one gradient, which is 0 and not \<open>1 / 2\<close>.
\<close>

theorem truediv_counterexample:
  "data (two_leaves 6 (1 / 2 ^ 1074) ! 1) \<noteq> 0
   \<and> Value_truediv (two_leaves 6 (1 / 2 ^ 1074)) 0 (Ref 1) = Inl (Raises OverflowError)
   \<and> Value_truediv (one_leaf 2) 0 (Ref 0) = Inr (self_quotient, 3)
   \<and> Value_backward self_quotient 3 = Some (Inr self_quotient_after)
   \<and> data (self_quotient ! 0) = 2 \<and> grad (self_quotient ! 0) = 0
   \<and> grad (self_quotient_after ! 0) = 0
   \<and> grad (self_quotient_after ! 0) \<noteq> 1 / data (self_quotient ! 0)"
proof -
  have "\<bar>1 / 2 ^ 1074 :: real\<bar> powr (- 1) = 2 ^ 1074"
    by (simp add: powr_neg_one)
  then have "py_pow (1 / 2 ^ 1074) (- 1) = Inl (Raises OverflowError)"
    by (simp add: py_pow_def overflow_bound_def)
  then have "data (two_leaves 6 (1 / 2 ^ 1074) ! 1) \<noteq> 0
   \<and> Value_truediv (two_leaves 6 (1 / 2 ^ 1074)) 0 (Ref 1) = Inl (Raises OverflowError)"
    by (simp add: Value_truediv_def Value_pow_def Value_init_def and_then_def two_leaves_eq)
  moreover have "data (self_quotient ! 0) = 2 \<and> grad (self_quotient ! 0) = 0
   \<and> grad (self_quotient_after ! 0) = 0
   \<and> grad (self_quotient_after ! 0) \<noteq> 1 / data (self_quotient ! 0)"
    by (simp add: self_quotient_def self_quotient_after_def)
  ultimately show ?thesis using self_quotient_forward self_quotient_backward by simp
qed

text \<open>
  C3, amended. Let \<open>a\<close> and \<open>b\<close> be nodes, the value \<open>y\<close> of \<open>b\<close> nonzero and both \<open>y^2\<close> and
  \<open>1 / y^2\<close> in the float range. Then \<^verbatim>\<open>a / b\<close> produces a node whose value is
  \<open>a.value * y^(-1)\<close>: a multiplication node whose operands are \<open>a\<close> and the power node of
  \<open>b\<close> and the constant \<open>-1\<close>. A backward pass from that node returns whenever one from \<open>a\<close>
  and one from \<open>b\<close> do. When \<open>a\<close> and \<open>b\<close> are different nodes and neither is reachable from
  the other, the pass adds \<open>1 / y\<close> to the gradient of \<open>a\<close> and \<open>- a.value / y^2\<close> to that of
  \<open>b\<close>: with gradients zero before, \<open>a.grad = 1 / y\<close> and \<open>b.grad = - a.value / y^2\<close>. For
  the values 6 and 2 the result is 3 and the gradients are 0.5 and -1.5.
\<close>

theorem truediv_value_and_gradients:
  assumes "wf_heap h" and "a < length h" and "b < length h"
    and "data (h ! b) \<noteq> 0" and "1 / (data (h ! b))\<^sup>2 < overflow_bound"
    and "(data (h ! b))\<^sup>2 < overflow_bound"
  shows "\<exists>h1 out. Value_truediv h a (Ref b) = Inr (h1, out)
     \<and> data (h1 ! out) = data (h ! a) * pow_value (data (h ! b)) (- 1)
     \<and> pow_value (data (h ! b)) (- 1) = 1 / data (h ! b)
     \<and> op (h1 ! out) = Op_Mul \<and> prev (h1 ! out) = [a, length h + 1]
     \<and> op (h1 ! (length h + 1)) = Op_Pow \<and> prev (h1 ! (length h + 1)) = [b, length h]
     \<and> data (h1 ! length h) = - 1
     \<and> ((\<exists>k. Value_backward h a = Some (Inr k)) \<and> (\<exists>k. Value_backward h b = Some (Inr k))
           \<longrightarrow> (\<exists>h2. Value_backward h1 out = Some (Inr h2)))
     \<and> (\<forall>h2. Value_backward h1 out = Some (Inr h2) \<and> a \<noteq> b
             \<and> (a, b) \<notin> (operand_edges h)\<^sup>* \<and> (b, a) \<notin> (operand_edges h)\<^sup>* \<longrightarrow>
            grad (h2 ! a) = grad (h ! a) + 1 / data (h ! b)
          \<and> grad (h2 ! b) = grad (h ! b) - data (h ! a) / (data (h ! b))\<^sup>2)"
proof -
  note r = inverse_in_range[OF assms(4,5)]
  from py_pow_value[OF py_pow_neg1[OF assms(4) r]]
  have pv: "pow_value (data (h ! b)) (- 1) = 1 / data (h ! b)" by simp
  note eq = Value_truediv_Ref[OF assms(2,3,4) r]
  from truediv_result[OF assms eq] pv eq assms(2,3) show ?thesis
    by (simp add: nth_append)
qed

theorem truediv_value_and_gradients_witness:
  "wf_heap product_heap \<and> 2 < length product_heap \<and> 3 < length product_heap
   \<and> data (product_heap ! 3) \<noteq> 0 \<and> 1 / (data (product_heap ! 3))\<^sup>2 < overflow_bound
   \<and> (data (product_heap ! 3))\<^sup>2 < overflow_bound
   \<and> Value_truediv product_heap 2 (Ref 3) = Inr (product_quotient, 6)
   \<and> data (product_heap ! 2) = 6 \<and> data (product_heap ! 3) = 2
   \<and> data (product_quotient ! 6) = 3
   \<and> Value_backward product_quotient 6 = Some (Inr product_quotient_after)
   \<and> (2, 3) \<notin> (operand_edges product_heap)\<^sup>* \<and> (3, 2) \<notin> (operand_edges product_heap)\<^sup>*
   \<and> grad (product_quotient_after ! 2) = 0 + 1 / 2
   \<and> grad (product_quotient_after ! 3) = 0 - 6 / 2\<^sup>2"
proof -
  have l: "2 < length product_heap" "3 < length product_heap" by (simp_all add: product_heap_eq)
  have d: "data (product_heap ! 2) = 6" "data (product_heap ! 3) = 2"
    "grad (product_heap ! 2) = 0" "grad (product_heap ! 3) = 0"
    by (simp_all add: product_heap_eq)
  have n1: "(2, 3) \<notin> (operand_edges product_heap)\<^sup>*"
    using reach_le[OF _ product_heap_wf, of 2 3] by auto
  have n2: "(3, 2) \<notin> (operand_edges product_heap)\<^sup>*"
    using leaf_reach[of product_heap 3 2] by (auto simp: product_heap_eq)
  from truediv_value_and_gradients[OF product_heap_wf l product_range] product_truediv
  have "\<forall>h2. Value_backward product_quotient 6 = Some (Inr h2) \<and> (2::nat) \<noteq> 3
             \<and> (2, 3) \<notin> (operand_edges product_heap)\<^sup>* \<and> (3, 2) \<notin> (operand_edges product_heap)\<^sup>* \<longrightarrow>
            grad (h2 ! 2) = grad (product_heap ! 2) + 1 / data (product_heap ! 3)
          \<and> grad (h2 ! 3) = grad (product_heap ! 3)
               - data (product_heap ! 2) / (data (product_heap ! 3))\<^sup>2"
    by auto
  with product_quotient_backward n1 n2 d
  have g: "grad (product_quotient_after ! 2) = 0 + 1 / 2"
    "grad (product_quotient_after ! 3) = 0 - 6 / 2\<^sup>2" by auto
  have v: "data (product_quotient ! 6) = 3" by (simp add: product_quotient_def)
  from product_heap_wf l product_range product_truediv d(1,2) v product_quotient_backward n1 n2 g
  show ?thesis by (intro conjI)
qed











subsection \<open>Claim C4: exceptions in the forward pass\<close>




lemma Value_add_Ref:
  "Value_add h s (Ref t) =
     (h @ [\<lparr>data = data (h ! s) + data (h ! t), grad = 0, backward_fn = Bw_Add s t (length h),
             prev = remdups [s, t], op = Op_Add\<rparr>], length h)"
  by (simp add: Value_add_def Value_init_def set_backward_def)

lemma Value_add_Raw:
  "s < length h \<Longrightarrow>
     Value_add h s (Raw x) =
       (h @ [\<lparr>data = x, grad = 0, backward_fn = Bw_None, prev = [], op = Op_Leaf\<rparr>,
             \<lparr>data = data (h ! s) + x, grad = 0, backward_fn = Bw_Add s (length h) (Suc (length h)),
               prev = [s, length h], op = Op_Add\<rparr>], Suc (length h))"
  by (simp add: Value_add_def Value_init_def set_backward_def nth_append)

lemma Value_sub_Raw:
  "s < length h \<Longrightarrow>
     Value_sub h s (Raw x) =
       (h @ [\<lparr>data = - x, grad = 0, backward_fn = Bw_None, prev = [], op = Op_Leaf\<rparr>,
             \<lparr>data = data (h ! s) - x, grad = 0, backward_fn = Bw_Add s (length h) (Suc (length h)),
               prev = [s, length h], op = Op_Add\<rparr>], Suc (length h))"
  by (simp add: Value_sub_def Value_add_Raw)

lemma Value_sub_leaf:
  "s < length h \<Longrightarrow>
     (case Value_init h x [] Op_Leaf of (h1, l) \<Rightarrow> Value_sub h1 s (Ref l)) =
       (h @ [\<lparr>data = x, grad = 0, backward_fn = Bw_None, prev = [], op = Op_Leaf\<rparr>,
             \<lparr>data = - 1, grad = 0, backward_fn = Bw_None, prev = [], op = Op_Leaf\<rparr>,
             \<lparr>data = - x, grad = 0, backward_fn = Bw_Mul (length h) (Suc (length h)) (length h + 2),
               prev = [length h, Suc (length h)], op = Op_Mul\<rparr>,
             \<lparr>data = data (h ! s) - x, grad = 0, backward_fn = Bw_Add s (length h + 2) (length h + 3),
               prev = [s, length h + 2], op = Op_Add\<rparr>], length h + 3)"
  by (simp add: Value_init_def Value_sub_def Value_neg_def Value_mul_Raw Value_add_Ref nth_append
      numeral_2_eq_2 numeral_3_eq_3)


lemma sub_raw_gradient:
  assumes wf: "wf_heap h" and s: "s < length h"
    and sub: "Value_sub h s (Raw x) = (h1, out)"
    and run: "Value_backward h1 out = Some (Inr g)"
  shows "grad (g ! s) = grad (h ! s) + 1"
proof -
  let ?L = "length h"
  let ?n1 = "\<lparr>data = - x, grad = 0, backward_fn = Bw_None, prev = [], op = Op_Leaf\<rparr>"
  let ?n2 = "\<lparr>data = data (h ! s) - x, grad = 0, backward_fn = Bw_Add s ?L (Suc ?L),
               prev = [s, ?L], op = Op_Add\<rparr>"
  from sub Value_sub_Raw[OF s, of x] have h1: "h1 = (h @ [?n1]) @ [?n2]" and out: "out = Suc ?L"
    by auto
  have 1: "wf_heap (h @ [?n1])"
    using wf by (rule wf_heap_snoc) (rule wf_node_new, simp_all)
  have wf1: "wf_heap h1" unfolding h1
    using 1 by (rule wf_heap_snoc) (rule wf_node_new, use s in \<open>simp_all add: nth_append\<close>)
  have nodes: "h1 ! s = h ! s" "prev (h1 ! ?L) = []" "backward_fn (h1 ! ?L) = Bw_None"
    "prev (h1 ! out) = [s, ?L]" "backward_fn (h1 ! out) = Bw_Add s ?L out"
    using s by (simp_all add: h1 out nth_append)
  have len: "out < length h1" "s < length h1" "s \<noteq> out" using s by (simp_all add: h1 out)
  have only: "s \<notin> set (closure_targets (backward_fn (h1 ! c)))"
    if c: "(out, c) \<in> (operand_edges h1)\<^sup>*" "c \<noteq> out" for c
  proof -
    from operands_reach[OF c(1)] c(2) nodes(4)
    consider "(s, c) \<in> (operand_edges h1)\<^sup>*" | "(?L, c) \<in> (operand_edges h1)\<^sup>*" by auto
    then show ?thesis
    proof cases
      case 1
      then show ?thesis using wf1 len(2) by (intro below_not_target)
    next
      case 2
      from leaf_reach[OF nodes(2) this] nodes(3) show ?thesis by simp
    qed
  qed
  from only_root_writes[OF wf1 len(1) run len(2,3) only]
  have "grad (g ! s) = grad (h1 ! s) + contribution g (backward_fn (h1 ! out)) s"
    and "grad (g ! out) = 1" by blast+
  with nodes s show ?thesis by simp
qed

lemma sub_leaf_gradient:
  assumes wf: "wf_heap h" and s: "s < length h"
    and sub: "(case Value_init h x [] Op_Leaf of (h1, l) \<Rightarrow> Value_sub h1 s (Ref l)) = (h1, out)"
    and run: "Value_backward h1 out = Some (Inr g)"
  shows "grad (g ! s) = grad (h ! s) + 1"
proof -
  let ?L = "length h"
  let ?n1 = "\<lparr>data = x, grad = 0, backward_fn = Bw_None, prev = [], op = Op_Leaf\<rparr>"
  let ?n2 = "\<lparr>data = - 1 :: real, grad = 0, backward_fn = Bw_None, prev = [], op = Op_Leaf\<rparr>"
  let ?n3 = "\<lparr>data = - x, grad = 0, backward_fn = Bw_Mul ?L (Suc ?L) (?L + 2),
               prev = [?L, Suc ?L], op = Op_Mul\<rparr>"
  let ?n4 = "\<lparr>data = data (h ! s) - x, grad = 0, backward_fn = Bw_Add s (?L + 2) (?L + 3),
               prev = [s, ?L + 2], op = Op_Add\<rparr>"
  from sub Value_sub_leaf[OF s, of x]
  have h1: "h1 = (((h @ [?n1]) @ [?n2]) @ [?n3]) @ [?n4]" and out: "out = ?L + 3"
    by auto
  have 1: "wf_heap (h @ [?n1])"
    using wf by (rule wf_heap_snoc) (rule wf_node_new, simp_all)
  have 2: "wf_heap ((h @ [?n1]) @ [?n2])"
    using 1 by (rule wf_heap_snoc) (rule wf_node_new, simp_all)
  have 3: "wf_heap (((h @ [?n1]) @ [?n2]) @ [?n3])"
    using 2 by (rule wf_heap_snoc) (rule wf_node_new, simp_all add: nth_append)
  have wf1: "wf_heap h1" unfolding h1
    using 3 by (rule wf_heap_snoc) (rule wf_node_new, use s in \<open>simp_all add: nth_append\<close>)
  have nodes: "h1 ! s = h ! s"
    "prev (h1 ! ?L) = []" "backward_fn (h1 ! ?L) = Bw_None"
    "prev (h1 ! Suc ?L) = []" "backward_fn (h1 ! Suc ?L) = Bw_None"
    "prev (h1 ! (?L + 2)) = [?L, Suc ?L]" "backward_fn (h1 ! (?L + 2)) = Bw_Mul ?L (Suc ?L) (?L + 2)"
    "prev (h1 ! out) = [s, ?L + 2]" "backward_fn (h1 ! out) = Bw_Add s (?L + 2) out"
    using s by (simp_all add: h1 out nth_append)
  have len: "out < length h1" "s < length h1" "s \<noteq> out" using s by (simp_all add: h1 out)
  have only: "s \<notin> set (closure_targets (backward_fn (h1 ! c)))"
    if c: "(out, c) \<in> (operand_edges h1)\<^sup>*" "c \<noteq> out" for c
  proof -
    from operands_reach[OF c(1)] c(2) nodes(8)
    consider "(s, c) \<in> (operand_edges h1)\<^sup>*" | "(?L + 2, c) \<in> (operand_edges h1)\<^sup>*" by auto
    then show ?thesis
    proof cases
      case 1
      then show ?thesis using wf1 len(2) by (intro below_not_target)
    next
      case 2
      from operands_reach[OF 2] nodes(6)
      consider "c = ?L + 2" | "(?L, c) \<in> (operand_edges h1)\<^sup>*" | "(Suc ?L, c) \<in> (operand_edges h1)\<^sup>*"
        by auto
      then show ?thesis
      proof cases
        case 1
        with nodes(7) s show ?thesis by simp
      next
        case 2
        from leaf_reach[OF nodes(2) this] nodes(3) show ?thesis by simp
      next
        case 3
        from leaf_reach[OF nodes(4) this] nodes(5) show ?thesis by simp
      qed
    qed
  qed
  from only_root_writes[OF wf1 len(1) run len(2,3) only]
  have "grad (g ! s) = grad (h1 ! s) + contribution g (backward_fn (h1 ! out)) s"
    and "grad (g ! out) = 1" by blast+
  with nodes s show ?thesis by simp
qed


lemma one_leaf_wf: "wf_heap (one_leaf x)"
  by (simp add: one_leaf_eq wf_heap_def wf_node_def)

text \<open>Division by a raw number: \<^verbatim>\<open>__truediv__\<close> does not wrap \<^verbatim>\<open>other\<close>, and its closure reads
  \<^verbatim>\<open>other.data\<close>. The forward pass returns, the backward pass raises \<^verbatim>\<open>AttributeError\<close>.\<close>

lemma truediv_raw_backward_raises:
  "Value_truediv (one_leaf 6) 0 (Raw 2) = Inr (div_raw_heap, 2)
   \<and> Value_backward div_raw_heap 2 = Some (Inl (Raises AttributeError))"
proof -
  have "\<bar>1 / 2 :: real\<bar> < overflow_bound" by (simp add: overflow_bound_def)
  from py_pow_neg1[OF _ this] have p: "py_pow 2 (- 1) = Inr (1 / 2)" by simp
  have f: "Value_truediv (one_leaf 6) 0 (Raw 2) = Inr (div_raw_heap, 2)"
    by (simp add: Value_truediv_def p and_then_def one_leaf_eq Value_mul_def Value_init_def
        set_backward_def div_raw_heap_def)
  have o: "backward_order div_raw_heap 2 = Some [2, 1, 0]"
    by (simp add: div_raw_heap_def backward_order_def eval_nat_numeral)
  have "Value_backward div_raw_heap 2 = Some (Inl (Raises AttributeError))"
    by (simp add: Value_backward_def o) (simp add: div_raw_heap_def set_grad_def and_then_def)
  with f show ?thesis by simp
qed

subsection \<open>Claim C5: raw numbers as operands\<close>

text \<open>
  C5 says that for every binary operation a raw number is wrapped into a leaf and the
  result is identical to the one with an explicit leaf of that number. For subtraction
  it is not: \<^verbatim>\<open>a - 2\<close> is \<^verbatim>\<open>a + (-2)\<close>, so the leaf that is wrapped holds \<open>-2\<close> and is the second
  operand of the result; \<^verbatim>\<open>a - Value(2.0)\<close> is \<^verbatim>\<open>a + Value(2.0) * -1\<close>, and the second
  operand of the result is a multiplication node.
\<close>

theorem raw_subtraction_counterexample:
  "Value_sub (one_leaf 5) 0 (Raw 2) = (sub_raw_heap, 2)
   \<and> Value_sub (two_leaves 5 2) 0 (Ref 1) = (sub_leaf_heap, 4)
   \<and> prev (sub_raw_heap ! 2) = [0, 1] \<and> op (sub_raw_heap ! 1) = Op_Leaf
   \<and> data (sub_raw_heap ! 1) = - 2
   \<and> prev (sub_leaf_heap ! 4) = [0, 3] \<and> op (sub_leaf_heap ! 3) = Op_Mul
   \<and> prev (sub_leaf_heap ! 3) = [1, 2]"
proof -
  have l: "0 < length (one_leaf 5)" by (simp add: one_leaf_eq)
  have t: "two_leaves 5 2 = fst (Value_init (one_leaf 5) 2 [] Op_Leaf)"
    by (simp add: two_leaves_eq one_leaf_eq Value_init_def)
  have "Value_sub (two_leaves 5 2) 0 (Ref 1)
      = (case Value_init (one_leaf 5) 2 [] Op_Leaf of (h1, l) \<Rightarrow> Value_sub h1 0 (Ref l))"
    by (simp add: t Value_init_def one_leaf_eq)
  with Value_sub_Raw[OF l, of 2] Value_sub_leaf[OF l, of 2] show ?thesis
    by (simp add: one_leaf_eq sub_raw_heap_def sub_leaf_heap_def)
qed

text \<open>
  C5, amended. For addition, multiplication and exponentiation, a raw number is first
  wrapped into a leaf with gradient zero and no operands, and the result is identical
  (the same heap, so the same value, structure and gradients of any later backward pass)
  to the one with an explicitly constructed leaf of that number. For subtraction it is
  the negated number that is wrapped, the result being that of an addition; its value is
  the value with an explicit leaf, and a backward pass from it adds 1 to the gradient of
  the left operand, as a backward pass from the result with an explicit leaf does.
\<close>

theorem raw_operand_is_wrapped:
  assumes "wf_heap h" and "s < length h"
  shows "wrap h (Raw x) = (h @ [\<lparr>data = x, grad = 0, backward_fn = Bw_None, prev = [], op = Op_Leaf\<rparr>],
                          length h)
     \<and> Value_add h s (Raw x) = (case Value_init h x [] Op_Leaf of (h1, l) \<Rightarrow> Value_add h1 s (Ref l))
     \<and> Value_mul h s (Raw x) = (case Value_init h x [] Op_Leaf of (h1, l) \<Rightarrow> Value_mul h1 s (Ref l))
     \<and> Value_pow h s (Raw x) = (case Value_init h x [] Op_Leaf of (h1, l) \<Rightarrow> Value_pow h1 s (Ref l))
     \<and> Value_sub h s (Raw x)
          = (case Value_init h (- x) [] Op_Leaf of (h1, l) \<Rightarrow> Value_add h1 s (Ref l))
     \<and> (\<forall>h1 o1 h2 o2.
           Value_sub h s (Raw x) = (h1, o1)
           \<and> (case Value_init h x [] Op_Leaf of (h', l) \<Rightarrow> Value_sub h' s (Ref l)) = (h2, o2) \<longrightarrow>
             data (h1 ! o1) = data (h2 ! o2)
             \<and> (\<forall>g. Value_backward h1 o1 = Some (Inr g) \<longrightarrow> grad (g ! s) = grad (h ! s) + 1)
             \<and> (\<forall>g. Value_backward h2 o2 = Some (Inr g) \<longrightarrow> grad (g ! s) = grad (h ! s) + 1))"
proof -
  have w: "wrap h (Raw x) = (h @ [\<lparr>data = x, grad = 0, backward_fn = Bw_None, prev = [], op = Op_Leaf\<rparr>],
                          length h)"
    by (simp add: Value_init_def)
  have a: "Value_add h s (Raw x) = (case Value_init h x [] Op_Leaf of (h1, l) \<Rightarrow> Value_add h1 s (Ref l))"
    by (simp add: Value_add_def Value_init_def)
  have m: "Value_mul h s (Raw x) = (case Value_init h x [] Op_Leaf of (h1, l) \<Rightarrow> Value_mul h1 s (Ref l))"
    by (simp add: Value_mul_def Value_init_def)
  have p: "Value_pow h s (Raw x) = (case Value_init h x [] Op_Leaf of (h1, l) \<Rightarrow> Value_pow h1 s (Ref l))"
    by (simp add: Value_pow_def Value_init_def)
  have sb: "Value_sub h s (Raw x)
          = (case Value_init h (- x) [] Op_Leaf of (h1, l) \<Rightarrow> Value_add h1 s (Ref l))"
    by (simp add: Value_sub_def Value_add_def Value_init_def)
  have g: "\<forall>h1 o1 h2 o2.
           Value_sub h s (Raw x) = (h1, o1)
           \<and> (case Value_init h x [] Op_Leaf of (h', l) \<Rightarrow> Value_sub h' s (Ref l)) = (h2, o2) \<longrightarrow>
             data (h1 ! o1) = data (h2 ! o2)
             \<and> (\<forall>g. Value_backward h1 o1 = Some (Inr g) \<longrightarrow> grad (g ! s) = grad (h ! s) + 1)
             \<and> (\<forall>g. Value_backward h2 o2 = Some (Inr g) \<longrightarrow> grad (g ! s) = grad (h ! s) + 1)"
  proof (intro allI impI, elim conjE)
    fix h1 o1 h2 o2
    assume r: "Value_sub h s (Raw x) = (h1, o1)"
      and e: "(case Value_init h x [] Op_Leaf of (h', l) \<Rightarrow> Value_sub h' s (Ref l)) = (h2, o2)"
    from r e Value_sub_Raw[OF assms(2), of x] Value_sub_leaf[OF assms(2), of x]
    have d: "data (h1 ! o1) = data (h2 ! o2)" by (auto simp: nth_append)
    from sub_raw_gradient[OF assms r] sub_leaf_gradient[OF assms e] d
    show "data (h1 ! o1) = data (h2 ! o2)
             \<and> (\<forall>g. Value_backward h1 o1 = Some (Inr g) \<longrightarrow> grad (g ! s) = grad (h ! s) + 1)
             \<and> (\<forall>g. Value_backward h2 o2 = Some (Inr g) \<longrightarrow> grad (g ! s) = grad (h ! s) + 1)"
      by blast
  qed
  from w a m p sb g show ?thesis by (intro conjI)
qed

theorem raw_operand_is_wrapped_witness:
  "wf_heap (one_leaf 5) \<and> 0 < length (one_leaf 5)
   \<and> Value_mul (one_leaf 5) 0 (Raw 2)
        = (case Value_init (one_leaf 5) 2 [] Op_Leaf of (h1, l) \<Rightarrow> Value_mul h1 0 (Ref l))
   \<and> data (sub_raw_heap ! 2) = data (sub_leaf_heap ! 4)"
proof -
  have l: "0 < length (one_leaf 5)" by (simp add: one_leaf_eq)
  note t = raw_operand_is_wrapped[OF one_leaf_wf l, of 2]
  have c: "Value_sub (one_leaf 5) 0 (Raw 2) = (sub_raw_heap, 2)
    \<and> (case Value_init (one_leaf 5) 2 [] Op_Leaf of (h1, l) \<Rightarrow> Value_sub h1 0 (Ref l))
        = (sub_leaf_heap, 4)"
    using Value_sub_Raw[OF l, of 2] Value_sub_leaf[OF l, of 2]
    by (simp add: one_leaf_eq sub_raw_heap_def sub_leaf_heap_def)
  from t c have "data (sub_raw_heap ! 2) = data (sub_leaf_heap ! 4)" by blast
  moreover from t have "Value_mul (one_leaf 5) 0 (Raw 2)
        = (case Value_init (one_leaf 5) 2 [] Op_Leaf of (h1, l) \<Rightarrow> Value_mul h1 0 (Ref l))"
    by blast
  ultimately show ?thesis using one_leaf_wf l by blast
qed

section \<open>The invariant of the heap\<close>

text \<open>Every operation, given operands that are objects of the heap, and every backward
  pass that returns, leaves a heap that satisfies \<open>wf_heap\<close>: the theorems that assume it
  speak of every heap the program can build.\<close>

lemma wf_heap_leaf:
  "wf_heap h \<Longrightarrow> wf_heap (h @ [\<lparr>data = d, grad = g, backward_fn = Bw_None, prev = [], op = tag\<rparr>])"
  by (rule wf_heap_snoc) (simp, rule wf_node_new, simp_all)

lemma wf_heap_unary:
  assumes "wf_heap h" and "s < length h"
    and "closure_out c = Some (length h)" and "closure_targets c = [s]"
  shows "wf_heap (h @ [\<lparr>data = d, grad = g, backward_fn = c, prev = [s], op = tag\<rparr>])"
  using assms(1) by (rule wf_heap_snoc) (rule wf_node_new, use assms in simp_all)

lemma wf_heap_binary:
  assumes "wf_heap h" and "s < length h" and "t < length h"
    and "closure_out c = Some (length h)" and "closure_targets c = [s, t]"
  shows "wf_heap (h @ [\<lparr>data = d, grad = g, backward_fn = c, prev = remdups [s, t], op = tag\<rparr>])"
  using assms(1) by (rule wf_heap_snoc) (rule wf_node_new, use assms in auto)

lemma wrap_wf:
  assumes "wf_heap h" and "operand_ok h other" and "wrap h other = (h1, t)"
  shows "wf_heap h1 \<and> t < length h1 \<and> length h \<le> length h1 \<and> (\<forall>i<length h. h1 ! i = h ! i)"
proof (cases other)
  case (Ref r)
  with assms show ?thesis by auto
next
  case (Raw x)
  with assms wf_heap_leaf[OF assms(1), of x 0 Op_Leaf] show ?thesis
    by (auto simp: Value_init_def nth_append)
qed

lemma Value_add_wf:
  assumes "wf_heap h" and "s < length h" and "operand_ok h other"
    and "Value_add h s other = (h', out)"
  shows "wf_heap h' \<and> out < length h'"
proof -
  obtain h1 t where w: "wrap h other = (h1, t)" by (cases "wrap h other")
  from wrap_wf[OF assms(1,3) w] assms(2)
  have 1: "wf_heap h1" "t < length h1" "s < length h1" by auto
  from assms(4) w have "h' = h1 @ [\<lparr>data = data (h1 ! s) + data (h1 ! t), grad = 0,
      backward_fn = Bw_Add s t (length h1), prev = remdups [s, t], op = Op_Add\<rparr>]"
    and "out = length h1"
    by (auto simp: Value_add_def Value_init_def set_backward_def)
  with wf_heap_binary[OF 1(1,3,2), of "Bw_Add s t (length h1)"] show ?thesis by simp
qed

lemma Value_mul_wf:
  assumes "wf_heap h" and "s < length h" and "operand_ok h other"
    and "Value_mul h s other = (h', out)"
  shows "wf_heap h' \<and> out < length h'"
proof -
  obtain h1 t where w: "wrap h other = (h1, t)" by (cases "wrap h other")
  from wrap_wf[OF assms(1,3) w] assms(2)
  have 1: "wf_heap h1" "t < length h1" "s < length h1" by auto
  from assms(4) w have "h' = h1 @ [\<lparr>data = data (h1 ! s) * data (h1 ! t), grad = 0,
      backward_fn = Bw_Mul s t (length h1), prev = remdups [s, t], op = Op_Mul\<rparr>]"
    and "out = length h1"
    by (auto simp: Value_mul_def Value_init_def set_backward_def)
  with wf_heap_binary[OF 1(1,3,2), of "Bw_Mul s t (length h1)"] show ?thesis by simp
qed

lemma Value_pow_wf:
  assumes "wf_heap h" and "s < length h" and "operand_ok h other"
    and "Value_pow h s other = Inr (h', out)"
  shows "wf_heap h' \<and> out < length h'"
proof -
  obtain h1 t where w: "wrap h other = (h1, t)" by (cases "wrap h other")
  from wrap_wf[OF assms(1,3) w] assms(2)
  have 1: "wf_heap h1" "t < length h1" "s < length h1" by auto
  from assms(4) w obtain d where "h' = h1 @ [\<lparr>data = d, grad = 0,
      backward_fn = Bw_Pow s t (length h1), prev = remdups [s, t], op = Op_Pow\<rparr>]"
    and "out = length h1"
    by (auto simp: Value_pow_def Value_init_def set_backward_def and_then_Inr)
  with wf_heap_binary[OF 1(1,3,2), of "Bw_Pow s t (length h1)"] show ?thesis by simp
qed


lemma Value_init_leaf_wf:
  assumes "wf_heap h" and "Value_init h d [] Op_Leaf = (h', out)"
  shows "wf_heap h' \<and> out < length h'"
  using assms wf_heap_leaf[OF assms(1), of d 0 Op_Leaf] by (auto simp: Value_init_def)

lemma Value_neg_wf:
  assumes "wf_heap h" and "s < length h" and "Value_neg h s = (h', out)"
  shows "wf_heap h' \<and> out < length h'"
  using Value_mul_wf[OF assms(1,2), of "Raw (- 1)"] assms(3) by (simp add: Value_neg_def)

lemma Value_sub_wf:
  assumes "wf_heap h" and "s < length h" and "operand_ok h other"
    and "Value_sub h s other = (h', out)"
  shows "wf_heap h' \<and> out < length h'"
proof (cases other)
  case (Ref r)
  obtain h1 n where n: "Value_neg h r = (h1, n)" by (cases "Value_neg h r")
  from assms(3) Ref have r: "r < length h" by simp
  from Value_neg_wf[OF assms(1) r n] have 1: "wf_heap h1" "n < length h1" by auto
  from n r have "length h \<le> length h1"
    by (auto simp: Value_neg_def Value_mul_Raw)
  with assms(2) have 2: "s < length h1" by simp
  from assms(4) Ref n have "Value_add h1 s (Ref n) = (h', out)" by (simp add: Value_sub_def)
  from Value_add_wf[OF 1(1) 2 _ this] 1(2) show ?thesis by simp
next
  case (Raw x)
  with assms(4) have "Value_add h s (Raw (- x)) = (h', out)" by (simp add: Value_sub_def)
  from Value_add_wf[OF assms(1,2) _ this] show ?thesis by simp
qed

lemma Value_relu_wf:
  assumes "wf_heap h" and "s < length h" and "Value_relu h s = (h', out)"
  shows "wf_heap h' \<and> out < length h'"
  using assms(3) wf_heap_unary[OF assms(1,2), of "Bw_ReLU s (length h)"]
  by (auto simp: Value_relu_def Value_init_def set_backward_def)

lemma Value_leaky_relu_wf:
  assumes "wf_heap h" and "s < length h" and "Value_leaky_relu h s alpha = (h', out)"
  shows "wf_heap h' \<and> out < length h'"
  using assms(3) wf_heap_unary[OF assms(1,2), of "Bw_LeakyReLU alpha s (length h)"]
  by (auto simp: Value_leaky_relu_def Value_init_def set_backward_def)

lemma Value_exp_wf:
  assumes "wf_heap h" and "s < length h" and "Value_exp h s = Inr (h', out)"
  shows "wf_heap h' \<and> out < length h' \<and> length h \<le> length h'"
  using assms(3) wf_heap_unary[OF assms(1,2), of "Bw_Exp s (length h)"]
  by (auto simp: Value_exp_def Value_init_def set_backward_def and_then_Inr)

lemma Value_elu_wf:
  assumes "wf_heap h" and "s < length h" and "Value_elu h s alpha = Inr (h', out)"
  shows "wf_heap h' \<and> out < length h'"
proof (cases "data (h ! s) < 0")
  case True
  let ?e = "\<lparr>data = exp (data (h ! s)), grad = 0, backward_fn = Bw_Exp s (length h),
              prev = [s], op = Op_Exp\<rparr>"
  have 1: "wf_heap (h @ [?e])" using assms(1,2) by (rule wf_heap_unary) simp_all
  have "s < length (h @ [?e])" using assms(2) by simp
  from wf_heap_unary[OF 1 this, of "Bw_ELU alpha s (Suc (length h))"] assms(3) True
  show ?thesis by (auto simp: Value_elu_eq)
next
  case False
  with assms(3) wf_heap_unary[OF assms(1,2), of "Bw_ELU alpha s (length h)"] show ?thesis
    by (auto simp: Value_elu_eq)
qed

lemma Value_sigmoid_wf:
  assumes "wf_heap h" and "s < length h" and "Value_sigmoid h s = Inr (h', out)"
  shows "wf_heap h' \<and> out < length h'"
proof (cases "overflow_bound \<le> - data (h ! s) \<or> exp (- data (h ! s)) < overflow_bound")
  case True
  from assms(3) wf_heap_unary_chain[OF assms(1,2), of "Bw_Sigmoid s (length h + 3)"]
  show ?thesis unfolding Value_sigmoid_eq[OF assms(2) True] by auto
next
  case False
  then have "- data (h ! s) < overflow_bound" "overflow_bound \<le> exp (- data (h ! s))"
    by simp_all
  from Value_sigmoid_raises[OF this assms(2)] assms(3) show ?thesis by simp
qed

lemma Value_tanh_wf:
  assumes "wf_heap h" and "s < length h" and "Value_tanh h s = Inr (h', out)"
  shows "wf_heap h' \<and> out < length h'"
proof (cases "overflow_bound \<le> - (data (h ! s) * 2)
              \<or> exp (- (data (h ! s) * 2)) < overflow_bound")
  case True
  from assms(3) wf_heap_unary_chain[OF assms(1,2), of "Bw_Tanh s (length h + 3)"]
  show ?thesis unfolding Value_tanh_eq[OF assms(2) True] by auto
next
  case False
  then have "- (data (h ! s) * 2) < overflow_bound"
    "overflow_bound \<le> exp (- (data (h ! s) * 2))" by simp_all
  from Value_tanh_raises[OF this assms(2)] assms(3) show ?thesis by simp
qed

lemma Value_truediv_wf:
  assumes "wf_heap h" and "s < length h" and "operand_ok h other"
    and "Value_truediv h s other = Inr (h', out)"
  shows "wf_heap h' \<and> out < length h'"
proof (cases other)
  case (Ref r)
  with assms(3) have r: "r < length h" by simp
  let ?L = "length h"
  from assms(4) Ref obtain d where d: "py_pow (data (h ! r)) (- 1) = Inr d"
    by (cases "py_pow (data (h ! r)) (- 1)")
      (auto simp: Value_truediv_def Value_pow_def and_then_def Value_init_def nth_append r)
  let ?n1 = "\<lparr>data = - 1 :: real, grad = 0, backward_fn = Bw_None, prev = [], op = Op_Leaf\<rparr>"
  let ?n2 = "\<lparr>data = d, grad = 0, backward_fn = Bw_Pow r ?L (Suc ?L), prev = [r, ?L], op = Op_Pow\<rparr>"
  let ?n3 = "\<lparr>data = data (h ! s) * d, grad = 0, backward_fn = Bw_Div s (Ref r) (?L + 2),
               prev = remdups [s, Suc ?L], op = Op_Mul\<rparr>"
  from assms(4) Ref d r assms(2) have h': "h' = ((h @ [?n1]) @ [?n2]) @ [?n3]" and out: "out = ?L + 2"
    by (auto simp: Value_truediv_def Value_pow_def Value_mul_def and_then_def Value_init_def
        set_backward_def nth_append)
  have 1: "wf_heap (h @ [?n1])" using assms(1) by (rule wf_heap_leaf)
  have 2: "wf_heap ((h @ [?n1]) @ [?n2])"
    using 1 by (rule wf_heap_snoc) (rule wf_node_new, use r in \<open>simp_all add: nth_append\<close>)
  have 3: "wf_heap (((h @ [?n1]) @ [?n2]) @ [?n3])"
    using 2 by (rule wf_heap_snoc)
      (rule wf_node_new, use r assms(2) in \<open>auto simp: nth_append\<close>)
  with h' out show ?thesis by simp
next
  case (Raw x)
  let ?L = "length h"
  from assms(4) Raw obtain y where y: "py_pow x (- 1) = Inr y"
    by (cases "py_pow x (- 1)") (auto simp: Value_truediv_def and_then_def)
  let ?n1 = "\<lparr>data = y, grad = 0, backward_fn = Bw_None, prev = [], op = Op_Leaf\<rparr>"
  let ?n2 = "\<lparr>data = data (h ! s) * y, grad = 0, backward_fn = Bw_Div s (Raw x) (Suc ?L),
               prev = [s, ?L], op = Op_Mul\<rparr>"
  from assms(4) Raw y assms(2) have h': "h' = (h @ [?n1]) @ [?n2]" and out: "out = Suc ?L"
    by (auto simp: Value_truediv_def Value_mul_Raw and_then_def set_backward_def
        list_update_append nth_append)
  have 1: "wf_heap (h @ [?n1])" using assms(1) by (rule wf_heap_leaf)
  have 2: "wf_heap ((h @ [?n1]) @ [?n2])"
    using 1 by (rule wf_heap_snoc) (rule wf_node_new, use assms(2) in \<open>simp_all add: nth_append\<close>)
  with h' out show ?thesis by simp
qed


lemma wf_heap_same_structure:
  assumes "wf_heap h" and "length h' = length h"
    and "\<forall>i<length h. prev (h' ! i) = prev (h ! i) \<and> backward_fn (h' ! i) = backward_fn (h ! i)"
  shows "wf_heap h'"
proof -
  have "wf_node h' i" if i: "i < length h" for i
  proof -
    from assms(1) i have n: "wf_node h i" by (rule wf_heap_node)
    have "prev (h' ! p) = prev (h ! p)" if "p \<in> set (prev (h ! i))" for p
      using that wf_heap_children[OF assms(1) i] i assms(3) by force
    with n assms(3) i show ?thesis by (auto simp: wf_node_def)
  qed
  with assms(2) show ?thesis by (simp add: wf_heap_def)
qed

lemma wf_heap_add_grad:
  assumes "wf_heap h"
  shows "wf_heap (add_grad h v d)"
  using assms by (rule wf_heap_same_structure) (simp_all add: length_add_grad add_grad_frame)

lemma wf_heap_set_grad:
  assumes "wf_heap h"
  shows "wf_heap (set_grad h v g)"
  using assms by (rule wf_heap_same_structure) (simp_all add: length_set_grad set_grad_nth)

lemma run_closure_wf:
  assumes wf: "wf_heap h" and out: "\<forall>out. closure_out c = Some out \<longrightarrow> out < length h"
    and run: "run_closure h c = Inr h'"
  shows "wf_heap h'"
proof (cases c)
  case Bw_None
  with run wf show ?thesis by simp
next
  case (Bw_Add s t out)
  with run wf show ?thesis by (auto simp: Let_def wf_heap_add_grad)
next
  case (Bw_Mul s t out)
  with run wf show ?thesis by (auto simp: Let_def wf_heap_add_grad)
next
  case (Bw_Div s other out)
  show ?thesis
  proof (cases other)
    case (Ref r)
    with run wf Bw_Div show ?thesis by (auto simp: Let_def and_then_Inr wf_heap_add_grad)
  next
    case (Raw y)
    with run Bw_Div show ?thesis by simp
  qed
next
  case (Bw_Pow s t out)
  with run wf show ?thesis by (auto simp: Let_def and_then_Inr wf_heap_add_grad)
next
  case (Bw_ReLU s out)
  with run wf show ?thesis by (auto simp: wf_heap_add_grad)
next
  case (Bw_Sigmoid s out)
  with run wf show ?thesis by (auto simp: wf_heap_add_grad)
next
  case (Bw_Tanh s out)
  with run wf show ?thesis by (auto simp: and_then_Inr wf_heap_add_grad)
next
  case (Bw_LeakyReLU alpha s out)
  with run wf show ?thesis by (auto simp: wf_heap_add_grad)
next
  case (Bw_ELU alpha s out')
  show ?thesis
  proof (cases "data (h ! s) < 0")
    case True
    with run Bw_ELU obtain h1 e where
      e: "Value_exp h out' = Inr (h1, e)" and h': "h' = add_grad h1 s (alpha * data (h1 ! e) * grad (h1 ! out'))"
      by (auto simp: and_then_Inr)
    from out Bw_ELU have "out' < length h" by simp
    from Value_exp_wf[OF wf this e] h' show ?thesis by (simp add: wf_heap_add_grad)
  next
    case False
    with run wf Bw_ELU show ?thesis by (auto simp: and_then_Inr wf_heap_add_grad)
  qed
next
  case (Bw_Exp s out)
  with run wf show ?thesis by (auto simp: wf_heap_add_grad)
qed

lemma run_all_wf:
  assumes "wf_heap h" and "\<forall>v\<in>set vs. v < length h" and "run_all h vs = Inr h'"
  shows "wf_heap h'"
  using assms
proof (induction vs arbitrary: h)
  case Nil
  then show ?case by simp
next
  case (Cons v vs)
  from Cons.prems(3) obtain h1 where
    a: "run_closure h (backward_fn (h ! v)) = Inr h1" and b: "run_all h1 vs = Inr h'"
    by (auto simp: and_then_Inr)
  from Cons.prems(2) have v: "v < length h" by simp
  from wf_heap_node[OF Cons.prems(1) v]
  have "\<forall>out. closure_out (backward_fn (h ! v)) = Some out \<longrightarrow> out < length h"
    using v by (auto simp: wf_node_def)
  from run_closure_wf[OF Cons.prems(1) this a] have wf1: "wf_heap h1" .
  from run_closure_frame[OF a] Cons.prems(2) have "\<forall>v\<in>set vs. v < length h1" by fastforce
  from Cons.IH[OF wf1 this b] show ?case .
qed

lemma Value_backward_wf:
  assumes wf: "wf_heap h" and rt: "rt < length h" and run: "Value_backward h rt = Some (Inr h')"
  shows "wf_heap h'"
proof -
  from Value_backward_run[OF run] obtain order where
    o: "backward_order h rt = Some order" and r: "run_all (set_grad h rt 1) order = Inr h'" by blast
  from backward_order_sorted[OF wf_heap_acyclic[OF wf] wf_heap_refs_ok[OF wf] rt] o
  have reach: "set order = (operand_edges h)\<^sup>* `` {rt}" by auto
  have "\<forall>v\<in>set order. v < length (set_grad h rt 1)"
  proof
    fix v assume "v \<in> set order"
    with reach have "(rt, v) \<in> (operand_edges h)\<^sup>*" by simp
    from reach_le[OF this wf] rt show "v < length (set_grad h rt 1)" by (simp add: length_set_grad)
  qed
  from run_all_wf[OF wf_heap_set_grad[OF wf] this r] show ?thesis .
qed

end
